theory Spec2Isabelle
  imports Main
begin

unbundle bit_operations_syntax

section \<open>JavaScript values\<close>

text \<open>
  The engine of \<^verbatim>\<open>lib/ccznp.js\<close> is a single-threaded event-loop program. The
  embedding keeps its state in one record, makes every exception a returned value, and
  keeps timers, \<^verbatim>\<open>setImmediate\<close> tasks and event listeners as explicit lists of
  pending work, run one at a time by a step function.
\<close>

datatype exn = Error string | TypeError string

text \<open>
  The JavaScript values that reach the engine. \<open>JObj\<close> is a plain object given by its
  own properties; \<open>JFunction n\<close> is the caller's function number \<open>n\<close>; \<open>JNoop\<close> is the
  empty function \<^verbatim>\<open>function(){}\<close> that \<^verbatim>\<open>_close\<close> substitutes for a missing
  callback; \<open>JErr\<close> is an \<^verbatim>\<open>Error\<close> object.
\<close>

datatype jsval =
    JUndefined
  | JNull
  | JNum int
  | JStr string
  | JObj "(string \<times> jsval) list"
  | JFunction nat
  | JNoop
  | JErr exn

fun typeof :: "jsval \<Rightarrow> string" where
  "typeof JUndefined = ''undefined''"
| "typeof JNull = ''object''"
| "typeof (JNum n) = ''number''"
| "typeof (JStr s) = ''string''"
| "typeof (JObj fs) = ''object''"
| "typeof (JFunction n) = ''function''"
| "typeof JNoop = ''function''"
| "typeof (JErr e) = ''object''"

fun truthy :: "jsval \<Rightarrow> bool" where
  "truthy JUndefined = False"
| "truthy JNull = False"
| "truthy (JNum n) = (n \<noteq> 0)"
| "truthy (JStr s) = (s \<noteq> [])"
| "truthy _ = True"

text \<open>
  Reading a property \<^verbatim>\<open>v.k\<close>: a \<^verbatim>\<open>TypeError\<close> on \<^verbatim>\<open>undefined\<close> and
  \<^verbatim>\<open>null\<close>, the property of an object, \<^verbatim>\<open>undefined\<close> where it is missing. It is
  used for the keys \<^verbatim>\<open>typesubsys\<close> and \<^verbatim>\<open>cmd\<close> only, which no primitive has.
\<close>

fun getprop :: "jsval \<Rightarrow> string \<Rightarrow> exn + jsval" where
  "getprop JUndefined k = Inl (TypeError ''Cannot read properties of undefined'')"
| "getprop JNull k = Inl (TypeError ''Cannot read properties of null'')"
| "getprop (JObj fs) k = Inr (case map_of fs k of None \<Rightarrow> JUndefined | Some v \<Rightarrow> v)"
| "getprop v k = Inr JUndefined"

section \<open>External collaborators\<close>

text \<open>
  What \<^verbatim>\<open>new ZpiObject(subsys, cmd, valObj)\<close> yields: the fields the engine reads, and
  \<open>zframe\<close>, the value of \<^verbatim>\<open>argObj.frame()\<close> (\<open>None\<close> when it is falsy).
\<close>

record zpiobj =
  ztype :: string
  zsubsys :: string
  zcmd :: string
  zcmdId :: int
  zframe :: "nat list option"

text \<open>
  \<^verbatim>\<open>lib/zpiObject.js\<close> and \<^verbatim>\<open>lib/zmeta.js\<close> are not part of the sources at hand, so
  the translator is a parameter of every function that calls it:
  \<open>ZpiObject\<close> is the constructor (\<open>Inl\<close> when it throws), \<open>cmdTypeKey t\<close> is
  \<^verbatim>\<open>zmeta.CmdType.get(t).key\<close> (\<open>None\<close> when \<^verbatim>\<open>get\<close> finds nothing, so that
  \<^verbatim>\<open>.key\<close> throws), \<open>zparse\<close> gives the pair \<^verbatim>\<open>(err, result)\<close> that
  \<^verbatim>\<open>argObj.parse\<close> hands to its callback, taken to be called before \<^verbatim>\<open>parse\<close>
  returns. \<open>stringToNumber\<close> is the language's conversion of a string to a number
  (\<open>None\<close> for \<^verbatim>\<open>NaN\<close>), needed where \<^verbatim>\<open>==\<close> compares a string with a number.
\<close>

record env =
  ZpiObject :: "jsval \<Rightarrow> jsval \<Rightarrow> jsval \<Rightarrow> exn + zpiobj"
  cmdTypeKey :: "jsval \<Rightarrow> string option"
  zparse :: "zpiobj \<Rightarrow> string \<Rightarrow> jsval \<Rightarrow> jsval \<Rightarrow> jsval \<times> jsval"
  stringToNumber :: "string \<Rightarrow> int option"

text \<open>\<^verbatim>\<open>ToNumber\<close>, with \<open>None\<close> for \<^verbatim>\<open>NaN\<close>.\<close>

fun toNumber :: "env \<Rightarrow> jsval \<Rightarrow> int option" where
  "toNumber E JNull = Some 0"
| "toNumber E (JNum n) = Some n"
| "toNumber E (JStr s) = stringToNumber E s"
| "toNumber E v = None"

text \<open>\<^verbatim>\<open>v & 0xF\<close>: \<^verbatim>\<open>NaN\<close> converts to 0.\<close>

definition and0xF :: "env \<Rightarrow> jsval \<Rightarrow> int" where
  "and0xF E v = (case toNumber E v of None \<Rightarrow> 0 | Some n \<Rightarrow> n AND 15)"

text \<open>
  The \<^verbatim>\<open>subsys\<close> and \<^verbatim>\<open>cmd\<close> arguments of \<^verbatim>\<open>request\<close> are
  \<^verbatim>\<open>String | Number\<close>.
\<close>

datatype ident = IStr string | INum int

fun ident_val :: "ident \<Rightarrow> jsval" where
  "ident_val (IStr s) = JStr s"
| "ident_val (INum n) = JNum n"

text \<open>\<^verbatim>\<open>b == x\<close> for a string \<open>b\<close> and a string or number \<open>x\<close>.\<close>

fun loose_eq :: "env \<Rightarrow> string \<Rightarrow> ident \<Rightarrow> bool" where
  "loose_eq E b (IStr s) = (b = s)"
| "loose_eq E b (INum n) = (stringToNumber E b = Some n)"

section \<open>The engine's state\<close>

text \<open>An entry of \<^verbatim>\<open>_txQueue\<close>; its \<^verbatim>\<open>fn\<close> closes over the four arguments.\<close>

record entry =
  esubsys :: ident
  ecmd :: ident
  evalObj :: jsval
  ecallback :: jsval

text \<open>
  An \<^verbatim>\<open>ownEvent\<close> object of \<^verbatim>\<open>_backlog\<close>. \<open>bid\<close> is its identity: the number of
  the transaction whose promotion timer created it.
\<close>

record bentry =
  bid :: nat
  bevt :: string
  bsubsys :: string
  bcmd :: string

text \<open>
  What an element of the local array \<^verbatim>\<open>backlog\<close> of \<^verbatim>\<open>_sendSREQ\<close> can be: an
  entry object, or the array object \<^verbatim>\<open>self._backlog\<close> itself.
\<close>

datatype bval = BEntry bentry | BArray

datatype handler =
    HResError
  | HSrsp nat
  | HReset jsval
  | HUser nat

record listener =
  lid :: nat
  levt :: string
  lonce :: bool
  lhandler :: handler

datatype taction = TSreqTimeout nat | TSreqNextQueue nat | TResetFailsafe

record timer =
  tmid :: nat
  due :: nat
  action :: taction

datatype task = KSweep nat | KTxDeQueue entry

text \<open>The variables that the closures of one call of \<^verbatim>\<open>_sendSREQ\<close> share.\<close>

record txn =
  targObj :: zpiobj
  tvalObj :: jsval
  tcallback :: jsval
  srspEvt :: string
  tbacklog :: "bval list"
  sreqTimeout :: "nat option"
  sreqNextQueue :: "nat option"
  ownEvent :: "bentry option"

text \<open>
  The serial port as the engine reads it. The port is an object of the serialport library:
  its \<^verbatim>\<open>isOpen\<close> is false from the moment \<^verbatim>\<open>close\<close> is called on it, while the
  port is closing, and not only once the close has completed.
\<close>

record serialport =
  isOpen :: bool
  errClosing :: bool

text \<open>Where a callback is called from; \<open>SListener t\<close> is the reply listener of transaction \<open>t\<close>.\<close>

datatype site = SListener nat | SBuild | SAreq | SReset | SRetry | SClose

datatype spop = SpFlush | SpClose

text \<open>
  The fields \<open>init\<close> to \<open>closeCbs\<close> are the engine's own variables. \<open>listeners\<close> is
  the emitter's table in order of registration, \<open>timers\<close> and \<open>immediates\<close> the pending
  \<^verbatim>\<open>setTimeout\<close> and \<^verbatim>\<open>setImmediate\<close> callbacks, \<open>txns\<close> the closure variables of
  every \<^verbatim>\<open>_sendSREQ\<close> call so far, \<open>flushQ\<close> the callbacks of the \<^verbatim>\<open>close\<close> calls
  whose flush is not yet done, \<open>closeWait\<close> the number of \<^verbatim>\<open>_sp.close\<close> calls that
  have not completed, \<open>now\<close> the clock in milliseconds. The last five fields record what the outside sees:
  the callbacks called, the frames given to \<^verbatim>\<open>_unpi.send\<close>, the user listeners
  notified, the operations asked of the serial port, and the exceptions that left an
  entry point.
\<close>

record znp =
  init :: bool
  resetting :: bool
  sp :: "serialport option"
  spinLock :: bool
  txQueue :: "entry list"
  backlog :: "bentry list"
  closeCbs :: "jsval list"
  listeners :: "listener list"
  timers :: "timer list"
  immediates :: "task list"
  txns :: "txn list"
  flushQ :: "jsval list"
  closeWait :: nat
  now :: nat
  nextId :: nat
  calls :: "(site \<times> jsval \<times> jsval list) list"
  wire :: "(string \<times> string \<times> int \<times> nat list) list"
  notified :: "(nat \<times> string \<times> jsval) list"
  spLog :: "spop list"
  thrown :: "exn list"

text \<open>
  The constructor: the listener of \<^verbatim>\<open>SRSP:RES0:error\<close> is registered there. (So is
  the listener of \<^verbatim>\<open>_ready\<close>, which runs when \<^verbatim>\<open>init\<close> has opened the port;
  \<^verbatim>\<open>init\<close> is not modelled, \<open>opened\<close> below is the state it leaves.)
\<close>

definition CcZnp :: znp where
  "CcZnp = \<lparr> init = False, resetting = False, sp = None, spinLock = False, txQueue = [],
     backlog = [], closeCbs = [],
     listeners = [\<lparr> lid = 0, levt = ''SRSP:RES0:error'', lonce = False, lhandler = HResError \<rparr>],
     timers = [], immediates = [], txns = [], flushQ = [], closeWait = 0, now = 0, nextId = 1,
     calls = [], wire = [], notified = [], spLog = [], thrown = [] \<rparr>"

section \<open>Event emitter, timers\<close>

definition listenersOf :: "string \<Rightarrow> znp \<Rightarrow> listener list" where
  "listenersOf evt s = filter (\<lambda>l. levt l = evt) (listeners s)"

definition listenerCount :: "string \<Rightarrow> znp \<Rightarrow> nat" where
  "listenerCount evt s = length (listenersOf evt s)"

definition addListener :: "string \<Rightarrow> bool \<Rightarrow> handler \<Rightarrow> znp \<Rightarrow> znp" where
  "addListener evt onc h s =
     s\<lparr> listeners := listeners s @ [\<lparr> lid = nextId s, levt = evt, lonce = onc, lhandler = h \<rparr>],
        nextId := Suc (nextId s) \<rparr>"

definition removeListener :: "nat \<Rightarrow> znp \<Rightarrow> znp" where
  "removeListener i s = s\<lparr> listeners := filter (\<lambda>l. lid l \<noteq> i) (listeners s) \<rparr>"

definition setTimeout :: "taction \<Rightarrow> nat \<Rightarrow> znp \<Rightarrow> nat \<times> znp" where
  "setTimeout a ms s =
     (nextId s, s\<lparr> timers := timers s @ [\<lparr> tmid = nextId s, due = now s + ms, action = a \<rparr>],
                   nextId := Suc (nextId s) \<rparr>)"

definition clearTimeout :: "nat \<Rightarrow> znp \<Rightarrow> znp" where
  "clearTimeout h s = s\<lparr> timers := filter (\<lambda>t. tmid t \<noteq> h) (timers s) \<rparr>"

definition setImmediate :: "task \<Rightarrow> znp \<Rightarrow> znp" where
  "setImmediate k s = s\<lparr> immediates := immediates s @ [k] \<rparr>"

text \<open>
  Calling \<^verbatim>\<open>callback(args)\<close>: a caller's function is recorded as called and is taken to
  return; a value that is no function gives a \<^verbatim>\<open>TypeError\<close>.
\<close>

definition invoke :: "site \<Rightarrow> jsval \<Rightarrow> jsval list \<Rightarrow> znp \<Rightarrow> znp \<times> exn option" where
  "invoke st f args s =
     (case f of
        JFunction n \<Rightarrow> (s\<lparr> calls := calls s @ [(st, f, args)] \<rparr>, None)
      | JNoop \<Rightarrow> (s, None)
      | _ \<Rightarrow> (s, Some (TypeError ''callback is not a function'')))"

definition unpi_send :: "string \<Rightarrow> string \<Rightarrow> int \<Rightarrow> nat list \<Rightarrow> znp \<Rightarrow> znp" where
  "unpi_send ty subsys cmdId payload s = s\<lparr> wire := wire s @ [(ty, subsys, cmdId, payload)] \<rparr>"

section \<open>The transmit queue\<close>

fun findIndex :: "('a \<Rightarrow> bool) \<Rightarrow> 'a list \<Rightarrow> nat option" where
  "findIndex P [] = None"
| "findIndex P (x # xs) = (if P x then Some 0 else map_option Suc (findIndex P xs))"

text \<open>\<^verbatim>\<open>xs.splice(pos, 1)\<close>\<close>

definition splice1 :: "nat \<Rightarrow> 'a list \<Rightarrow> 'a list" where
  "splice1 pos xs = take pos xs @ drop (Suc pos) xs"

text \<open>
  The body of the \<^verbatim>\<open>findIndex\<close> callback of \<^verbatim>\<open>_scheduleNextSend\<close>, negated: some
  element \<open>b\<close> of \<^verbatim>\<open>_backlog\<close> has \<^verbatim>\<open>b.subsys == entry.subsys && b.cmd == entry.cmd\<close>.
\<close>

definition collides :: "env \<Rightarrow> bentry list \<Rightarrow> entry \<Rightarrow> bool" where
  "collides E bl e =
     list_ex (\<lambda>b. loose_eq E (bsubsys b) (esubsys e) \<and> loose_eq E (bcmd b) (ecmd e)) bl"

text \<open>
  \<^verbatim>\<open>_scheduleNextSend(early)\<close>: the value returned and the new state. The entry taken
  is deferred with \<^verbatim>\<open>setImmediate\<close>.
\<close>

definition scheduleNextSend :: "env \<Rightarrow> bool \<Rightarrow> znp \<Rightarrow> bool \<times> znp" where
  "scheduleNextSend E early s =
     (case txQueue s of
        [] \<Rightarrow> (False, s)
      | e # q \<Rightarrow>
          if early then
            (case findIndex (\<lambda>x. \<not> collides E (backlog s) x) (txQueue s) of
               None \<Rightarrow> (False, s)
             | Some i \<Rightarrow>
                 (True, setImmediate (KTxDeQueue (txQueue s ! i))
                          (s\<lparr> txQueue := splice1 i (txQueue s) \<rparr>)))
          else (True, setImmediate (KTxDeQueue e) (s\<lparr> txQueue := q \<rparr>)))"

section \<open>Sending\<close>

definition upd_txn :: "nat \<Rightarrow> (txn \<Rightarrow> txn) \<Rightarrow> znp \<Rightarrow> znp" where
  "upd_txn tid f s = s\<lparr> txns := (txns s)[tid := f (txns s ! tid)] \<rparr>"

text \<open>
  \<^verbatim>\<open>new Array(x)\<close> with one argument that is not a number is the array of length one
  that holds \<open>x\<close>.
\<close>

definition new_Array :: "bval \<Rightarrow> bval list" where
  "new_Array x = [x]"

text \<open>
  \<^verbatim>\<open>_sendSREQ\<close>. The transaction's number is its index in \<open>txns\<close>. The local
  \<^verbatim>\<open>backlog\<close> is \<^verbatim>\<open>new Array(self._backlog)\<close>.
\<close>

definition sendSREQ :: "env \<Rightarrow> zpiobj \<Rightarrow> jsval \<Rightarrow> jsval \<Rightarrow> znp \<Rightarrow> znp \<times> exn option" where
  "sendSREQ E argObj valObj callback s =
     (case zframe argObj of
        None \<Rightarrow> invoke SBuild callback [JErr (Error ''Fail to build frame'')] s
      | Some payload \<Rightarrow>
          let tid = length (txns s);
              evt = ''SRSP:'' @ zsubsys argObj @ '':'' @ zcmd argObj;
              (h1, s1) = setTimeout (TSreqTimeout tid) 3500 s;
              (h2, s2) = setTimeout (TSreqNextQueue tid) 1800 s1;
              s3 = s2\<lparr> txns := txns s2 @
                     [\<lparr> targObj = argObj, tvalObj = valObj, tcallback = callback, srspEvt = evt,
                        tbacklog = new_Array BArray, sreqTimeout = Some h1,
                        sreqNextQueue = Some h2, ownEvent = None \<rparr>] \<rparr>;
              s4 = addListener evt True (HSrsp tid) s3
          in (unpi_send ''SREQ'' (zsubsys argObj) (zcmdId argObj) payload s4, None))"

text \<open>\<^verbatim>\<open>_sendAREQ\<close>\<close>

definition sendAREQ :: "env \<Rightarrow> zpiobj \<Rightarrow> jsval \<Rightarrow> znp \<Rightarrow> znp \<times> exn option" where
  "sendAREQ E argObj callback s =
     (case zframe argObj of
        None \<Rightarrow> invoke SBuild callback [JErr (Error ''Fail to build frame'')] s
      | Some payload \<Rightarrow>
          if zcmd argObj = ''resetReq'' \<or> zcmd argObj = ''systemReset'' then
            let s1 = s\<lparr> resetting := True, txQueue := [] \<rparr>;
                s2 = addListener ''AREQ:SYS:RESET'' True (HReset callback) s1;
                (h, s3) = setTimeout TResetFailsafe 30000 s2
            in (unpi_send ''AREQ'' (zsubsys argObj) (zcmdId argObj) payload s3, None)
          else
            (case invoke SAreq callback [JNull]
                    (snd (scheduleNextSend E False (s\<lparr> spinLock := False \<rparr>))) of
               (s1, Some ex) \<Rightarrow> (s1, Some ex)
             | (s1, None) \<Rightarrow>
                 (unpi_send ''AREQ'' (zsubsys argObj) (zcmdId argObj) payload s1, None)))"

text \<open>\<^verbatim>\<open>request\<close>: the state after the call, and the exception thrown to the caller.\<close>

definition request ::
  "env \<Rightarrow> ident \<Rightarrow> ident \<Rightarrow> jsval \<Rightarrow> jsval \<Rightarrow> znp \<Rightarrow> znp \<times> exn option" where
  "request E subsys cmd valObj callback s =
     (if \<not> init s then (s, Some (Error ''ccznp has not been initialized yet''))
      else if \<not> truthy valObj \<or> typeof valObj \<noteq> ''object'' then
        (s, Some (TypeError ''valObj should be an object''))
      else if typeof callback \<noteq> ''function'' \<and> typeof callback \<noteq> ''undefined'' then
        (s, Some (TypeError ''callback should be a function''))
      else
        (case ZpiObject E (ident_val subsys) (ident_val cmd) valObj of
           Inl ex \<Rightarrow> (s, Some ex)
         | Inr argObj \<Rightarrow>
             if spinLock s then
               (s\<lparr> txQueue := txQueue s @
                     [\<lparr> esubsys = subsys, ecmd = cmd, evalObj = valObj, ecallback = callback \<rparr>] \<rparr>,
                None)
             else if ztype argObj = ''SREQ'' then
               sendSREQ E argObj valObj callback (s\<lparr> spinLock := True \<rparr>)
             else if ztype argObj = ''AREQ'' then
               sendAREQ E argObj callback (s\<lparr> spinLock := True \<rparr>)
             else (s\<lparr> spinLock := True \<rparr>, None)))"

text \<open>
  The \<^verbatim>\<open>fn\<close> of a queue entry: \<^verbatim>\<open>request\<close> again with the same arguments, inside
  \<^verbatim>\<open>try\<close>; the \<^verbatim>\<open>catch\<close> hands the exception to the callback.
\<close>

definition entry_fn :: "env \<Rightarrow> entry \<Rightarrow> znp \<Rightarrow> znp \<times> exn option" where
  "entry_fn E e s =
     (case request E (esubsys e) (ecmd e) (evalObj e) (ecallback e) s of
        (s', Some ex) \<Rightarrow> invoke SRetry (ecallback e) [JErr ex] s'
      | (s', None) \<Rightarrow> (s', None))"

section \<open>Listeners\<close>

text \<open>\<^verbatim>\<open>self._backlog.indexOf(v)\<close>: the live array holds entry objects only.\<close>

fun indexOf :: "bentry list \<Rightarrow> bval \<Rightarrow> nat option" where
  "indexOf bl BArray = None"
| "indexOf bl (BEntry e) = findIndex (\<lambda>b. bid b = bid e) bl"

text \<open>
  The listener that \<^verbatim>\<open>_sendSREQ\<close> attaches with \<^verbatim>\<open>once\<close>, for transaction \<open>tid\<close> and
  the emitted value \<open>result\<close>.
\<close>

definition srsp_listener :: "env \<Rightarrow> nat \<Rightarrow> jsval \<Rightarrow> znp \<Rightarrow> znp \<times> exn option" where
  "srsp_listener E tid result s =
     (if tid < length (txns s) then
        let t = txns s ! tid;
            hasSent = \<not> spinLock s;
            s1 = s\<lparr> spinLock := False \<rparr>;
            s2 = (case sreqTimeout t of
                    None \<Rightarrow> s1
                  | Some h \<Rightarrow> upd_txn tid (\<lambda>t. t\<lparr> sreqTimeout := None \<rparr>) (clearTimeout h s1));
            s3 = setImmediate (KSweep tid) s2;
            s4 = (case ownEvent t of
                    None \<Rightarrow> s3
                  | Some oe \<Rightarrow>
                      (case indexOf (backlog s3) (BEntry oe) of
                         None \<Rightarrow> s3
                       | Some pos \<Rightarrow> s3\<lparr> backlog := splice1 pos (backlog s3) \<rparr>));
            s5 = (case sreqNextQueue t of
                    None \<Rightarrow> s4
                  | Some h \<Rightarrow> upd_txn tid (\<lambda>t. t\<lparr> sreqNextQueue := None \<rparr>) (clearTimeout h s4));
            s6 = (if \<not> hasSent then snd (scheduleNextSend E False s5) else s5)
        in if result = JStr ''__timeout__'' then
             invoke (SListener tid) (tcallback t) [JErr (Error ''request timeout'')] s6
           else if result = JStr ''__error__'' then
             invoke (SListener tid) (tcallback t) [JErr (Error ''request communication error'')] s6
           else invoke (SListener tid) (tcallback t) [JNull, result] (s6\<lparr> resetting := False \<rparr>)
      else (s, None))"

text \<open>The listener that \<^verbatim>\<open>_sendAREQ\<close> attaches to \<^verbatim>\<open>AREQ:SYS:RESET\<close>.\<close>

definition reset_listener :: "jsval \<Rightarrow> znp \<Rightarrow> znp \<times> exn option" where
  "reset_listener callback s = invoke SReset callback [JNull] (s\<lparr> resetting := False, spinLock := False \<rparr>)"

text \<open>
  The \<^verbatim>\<open>try\<close> block of the \<^verbatim>\<open>SRSP:RES0:error\<close> listener up to its \<^verbatim>\<open>emit\<close>: the
  name of the event, or \<open>None\<close> when an exception is thrown (the \<^verbatim>\<open>catch\<close> only logs).
\<close>

definition res_error_target :: "env \<Rightarrow> jsval \<Rightarrow> string option" where
  "res_error_target E data =
     (case getprop data ''typesubsys'' of
        Inl ex \<Rightarrow> None
      | Inr ts \<Rightarrow>
          (case getprop data ''cmd'' of
             Inl ex \<Rightarrow> None
           | Inr c \<Rightarrow>
               (case ZpiObject E (JNum (and0xF E ts)) c JUndefined of
                  Inl ex \<Rightarrow> None
                | Inr argObj \<Rightarrow> Some (''SRSP:'' @ zsubsys argObj @ '':'' @ zcmd argObj))))"

text \<open>
  One listener called by \<^verbatim>\<open>emit\<close>. \<open>nested\<close> is the \<^verbatim>\<open>emit\<close> that the error listener
  calls; what it throws is caught there.
\<close>

definition run_handler ::
  "(string \<Rightarrow> jsval \<Rightarrow> znp \<Rightarrow> znp \<times> exn option) \<Rightarrow> env \<Rightarrow> listener \<Rightarrow> jsval \<Rightarrow> znp
     \<Rightarrow> znp \<times> exn option" where
  "run_handler nested E l arg s =
     (case lhandler l of
        HResError \<Rightarrow>
          (case res_error_target E arg of
             None \<Rightarrow> (s, None)
           | Some evt \<Rightarrow>
               if listenerCount evt s \<noteq> 0 then (fst (nested evt (JStr ''__error__'') s), None)
               else (s, None))
      | HSrsp tid \<Rightarrow> srsp_listener E tid arg s
      | HReset cb \<Rightarrow> reset_listener cb s
      | HUser n \<Rightarrow> (s\<lparr> notified := notified s @ [(n, levt l, arg)] \<rparr>, None))"

definition registered :: "nat \<Rightarrow> znp \<Rightarrow> bool" where
  "registered i s = list_ex (\<lambda>m. lid m = i) (listeners s)"

text \<open>
  \<^verbatim>\<open>emit\<close> calls the listeners that were registered when it started, in order. A
  \<^verbatim>\<open>once\<close> listener is removed before it is called, and is not called when it has
  fired already. An exception ends the loop.
\<close>

fun run_ls ::
  "(string \<Rightarrow> jsval \<Rightarrow> znp \<Rightarrow> znp \<times> exn option) \<Rightarrow> env \<Rightarrow> listener list \<Rightarrow> jsval \<Rightarrow> znp
     \<Rightarrow> znp \<times> exn option" where
  "run_ls nested E [] arg s = (s, None)"
| "run_ls nested E (l # ls) arg s =
     (if lonce l \<and> \<not> registered (lid l) s then run_ls nested E ls arg s
      else
        (case run_handler nested E l arg (if lonce l then removeListener (lid l) s else s) of
           (s', Some ex) \<Rightarrow> (s', Some ex)
         | (s', None) \<Rightarrow> run_ls nested E ls arg s'))"

text \<open>
  \<open>emit d\<close> may be nested \<open>d\<close> times inside the error listener, as the call stack
  allows; the innermost error listener does not emit.
\<close>

primrec emit :: "nat \<Rightarrow> env \<Rightarrow> string \<Rightarrow> jsval \<Rightarrow> znp \<Rightarrow> znp \<times> exn option" where
  "emit 0 E evt arg s = run_ls (\<lambda>evt' arg' s'. (s', None)) E (listenersOf evt s) arg s"
| "emit (Suc d) E evt arg s = run_ls (emit d E) E (listenersOf evt s) arg s"

section \<open>Timer and immediate callbacks\<close>

text \<open>The 3500 ms timer of \<^verbatim>\<open>_sendSREQ\<close>.\<close>

definition sreqTimeout_cb :: "nat \<Rightarrow> env \<Rightarrow> nat \<Rightarrow> znp \<Rightarrow> znp \<times> exn option" where
  "sreqTimeout_cb d E tid s =
     (if tid < length (txns s) then
        (case (if listenerCount (srspEvt (txns s ! tid)) s \<noteq> 0
               then emit d E (srspEvt (txns s ! tid)) (JStr ''__timeout__'') s
               else (s, None)) of
           (s', Some ex) \<Rightarrow> (s', Some ex)
         | (s', None) \<Rightarrow> (upd_txn tid (\<lambda>t. t\<lparr> sreqTimeout := None \<rparr>) s', None))
      else (s, None))"

text \<open>The 1800 ms timer of \<^verbatim>\<open>_sendSREQ\<close>.\<close>

definition sreqNextQueue_cb :: "env \<Rightarrow> nat \<Rightarrow> znp \<Rightarrow> znp" where
  "sreqNextQueue_cb E tid s =
     (if tid < length (txns s) then
        let t = txns s ! tid;
            oe = \<lparr> bid = tid, bevt = srspEvt t, bsubsys = zsubsys (targObj t),
                   bcmd = zcmd (targObj t) \<rparr>;
            s1 = upd_txn tid (\<lambda>t. t\<lparr> ownEvent := Some oe \<rparr>) s;
            s2 = s1\<lparr> backlog := backlog s1 @ [oe] \<rparr>;
            s3 = upd_txn tid (\<lambda>t. t\<lparr> sreqNextQueue := None \<rparr>) s2
        in (case scheduleNextSend E True s3 of
              (True, s4) \<Rightarrow> s4\<lparr> spinLock := False \<rparr>
            | (False, s4) \<Rightarrow> s4)
      else s)"

text \<open>The 30000 ms timer of \<^verbatim>\<open>_sendAREQ\<close>.\<close>

definition resetFailsafe_cb :: "znp \<Rightarrow> znp" where
  "resetFailsafe_cb s = (if resetting s then s\<lparr> spinLock := False \<rparr> else s)"

text \<open>
  The \<^verbatim>\<open>setImmediate\<close> callback of the reply listener:
  \<^verbatim>\<open>backlog.forEach\<close> over the local array \<open>vs\<close>. An array object has no property
  \<^verbatim>\<open>evt\<close>, and nothing listens to \<^verbatim>\<open>undefined\<close>.
\<close>

fun sweep :: "nat \<Rightarrow> env \<Rightarrow> bval list \<Rightarrow> znp \<Rightarrow> znp \<times> exn option" where
  "sweep d E [] s = (s, None)"
| "sweep d E (v # vs) s =
     (case indexOf (backlog s) v of
        None \<Rightarrow> sweep d E vs s
      | Some pos \<Rightarrow>
          (case (case v of
                   BEntry be \<Rightarrow>
                     if listenerCount (bevt be) s \<noteq> 0
                     then emit d E (bevt be) (JStr ''__timeout__'') s
                     else (s, None)
                 | BArray \<Rightarrow> (s, None)) of
             (s', Some ex) \<Rightarrow> (s', Some ex)
           | (s', None) \<Rightarrow> sweep d E vs (s'\<lparr> backlog := splice1 pos (backlog s') \<rparr>)))"

section \<open>Inbound frames\<close>

text \<open>The object that the frame codec emits as \<^verbatim>\<open>data\<close>.\<close>

record frame =
  sof :: int
  len :: int
  ftype :: jsval
  fsubsys :: jsval
  fcmd :: jsval
  payload :: jsval
  fcs :: int
  csum :: int

definition frame_val :: "frame \<Rightarrow> jsval" where
  "frame_val f =
     JObj [(''sof'', JNum (sof f)), (''len'', JNum (len f)), (''type'', ftype f),
           (''subsys'', fsubsys f), (''cmd'', fcmd f), (''payload'', payload f),
           (''fcs'', JNum (fcs f)), (''csum'', JNum (csum f))]"

text \<open>
  \<^verbatim>\<open>valObjFormat(valObj)\<close> is evaluated for the log lines only, but it reads
  \<^verbatim>\<open>valObj.dstaddr\<close> first, which throws on \<^verbatim>\<open>undefined\<close> and \<^verbatim>\<open>null\<close>: the
  exception it throws, if any. In \<^verbatim>\<open>request\<close> and in the reply listener its argument is
  the argument object that \<^verbatim>\<open>request\<close> has validated, on which it does not throw; in
  \<^verbatim>\<open>_mtIncomingDataHdlr\<close> its argument is the parsed payload.
\<close>

fun valObjFormat :: "jsval \<Rightarrow> exn option" where
  "valObjFormat JUndefined = Some (TypeError ''Cannot read properties of undefined'')"
| "valObjFormat JNull = Some (TypeError ''Cannot read properties of null'')"
| "valObjFormat v = None"

text \<open>
  \<^verbatim>\<open>_mtIncomingDataHdlr(err, data)\<close>, with the fields of \<^verbatim>\<open>data\<close> that it reads. It
  is reached with \<^verbatim>\<open>err\<close> falsy only from the callback of \<^verbatim>\<open>parse\<close>, where
  \<^verbatim>\<open>data.subsys\<close> and \<^verbatim>\<open>data.cmd\<close> are strings.
\<close>

definition mtIncomingDataHdlr ::
  "nat \<Rightarrow> env \<Rightarrow> jsval \<Rightarrow> jsval \<Rightarrow> jsval \<Rightarrow> jsval \<Rightarrow> jsval \<Rightarrow> znp \<Rightarrow> znp \<times> exn option" where
  "mtIncomingDataHdlr d E err ty subsys cmd result s =
     (if truthy err then (s, None)
      else if ty = JStr ''SRSP'' then
        (case valObjFormat result of
           Some ex \<Rightarrow> (s, Some ex)
         | None \<Rightarrow>
             (case (subsys, cmd) of
                (JStr sub, JStr c) \<Rightarrow>
                  if listenerCount (''SRSP:'' @ sub @ '':'' @ c) s \<noteq> 0
                  then emit d E (''SRSP:'' @ sub @ '':'' @ c) result s
                  else (s, None)
              | _ \<Rightarrow> (s, None)))
      else if ty = JStr ''AREQ'' then
        (case valObjFormat result of
           Some ex \<Rightarrow> (s, Some ex)
         | None \<Rightarrow>
             (case emit d E ''AREQ''
                      (JObj [(''subsys'', subsys), (''ind'', cmd), (''data'', result)]) s of
                (s1, Some ex) \<Rightarrow> (s1, Some ex)
              | (s1, None) \<Rightarrow>
                  if subsys = JStr ''SYS'' \<and> cmd = JStr ''resetInd''
                  then emit d E ''AREQ:SYS:RESET'' result s1
                  else (s1, None)))
      else (s, None))"

text \<open>
  \<^verbatim>\<open>_parseMtIncomingData(data)\<close>: \<^verbatim>\<open>data\<close> is emitted first; whatever the
  \<^verbatim>\<open>try\<close> block throws, also from inside the callback of \<^verbatim>\<open>parse\<close>, goes to
  \<^verbatim>\<open>_mtIncomingDataHdlr\<close> as \<^verbatim>\<open>err\<close>.
\<close>

definition parseMtIncomingData :: "nat \<Rightarrow> env \<Rightarrow> frame \<Rightarrow> znp \<Rightarrow> znp \<times> exn option" where
  "parseMtIncomingData d E data s =
     (case emit d E ''data'' (frame_val data) s of
        (s1, Some ex) \<Rightarrow> (s1, Some ex)
      | (s1, None) \<Rightarrow>
          if fcs data \<noteq> csum data then
            mtIncomingDataHdlr d E (JErr (Error ''Invalid checksum'')) (ftype data)
              (fsubsys data) (fcmd data) (payload data) s1
          else
            (case ZpiObject E (fsubsys data) (fcmd data) JUndefined of
               Inl ex \<Rightarrow>
                 mtIncomingDataHdlr d E (JErr ex) (ftype data) (fsubsys data) (fcmd data)
                   (payload data) s1
             | Inr argObj \<Rightarrow>
                 (case cmdTypeKey E (ftype data) of
                    None \<Rightarrow>
                      mtIncomingDataHdlr d E (JErr (TypeError ''Cannot read properties of undefined''))
                        (ftype data) (fsubsys data) (fcmd data) (payload data) s1
                  | Some ty \<Rightarrow>
                      (case zparse E argObj ty (JNum (len data)) (payload data) of
                         (err, result) \<Rightarrow>
                           (case mtIncomingDataHdlr d E err (JStr ty) (JStr (zsubsys argObj))
                                   (JStr (zcmd argObj)) result s1 of
                              (s2, Some ex) \<Rightarrow>
                                mtIncomingDataHdlr d E (JErr ex) (JStr ty) (JStr (zsubsys argObj))
                                  (JStr (zcmd argObj)) result s2
                            | (s2, None) \<Rightarrow> (s2, None))))))"

section \<open>Closing\<close>

text \<open>
  \<^verbatim>\<open>_close(callback)\<close>. The call of \<^verbatim>\<open>_sp.close\<close> is recorded in \<open>spLog\<close>, and from
  then on the port reports that it is not open.
\<close>

definition close_inner :: "jsval \<Rightarrow> znp \<Rightarrow> znp \<times> exn option" where
  "close_inner callback s =
     (case sp s of
        None \<Rightarrow> invoke SClose callback [JNull] s
      | Some p \<Rightarrow>
          if \<not> isOpen p then invoke SClose callback [JNull] s
          else
            let s1 = s\<lparr> closeCbs := closeCbs s @ [if truthy callback then callback else JNoop] \<rparr>
            in if length (closeCbs s1) = 1
               then (s1\<lparr> sp := Some (p\<lparr> isOpen := False \<rparr>), spLog := spLog s1 @ [SpClose],
                         closeWait := Suc (closeWait s1) \<rparr>, None)
               else (s1, None))"

text \<open>The loop \<^verbatim>\<open>for (i = 0; i < closeCbs.length; i++) closeCbs[i](arg)\<close>.\<close>

fun call_each :: "jsval list \<Rightarrow> jsval \<Rightarrow> znp \<Rightarrow> znp \<times> exn option" where
  "call_each [] arg s = (s, None)"
| "call_each (f # fs) arg s =
     (case invoke SClose f [arg] s of
        (s', Some ex) \<Rightarrow> (s', Some ex)
      | (s', None) \<Rightarrow> call_each fs arg s')"

text \<open>The function that \<^verbatim>\<open>_close\<close> passes to \<^verbatim>\<open>_sp.close\<close>.\<close>

definition close_cb :: "jsval \<Rightarrow> znp \<Rightarrow> znp \<times> exn option" where
  "close_cb arg s =
     (case call_each (closeCbs s) arg s of
        (s', Some ex) \<Rightarrow> (s', Some ex)
      | (s', None) \<Rightarrow> (s'\<lparr> closeCbs := [] \<rparr>, None))"

text \<open>The listener \<^verbatim>\<open>spClose\<close> of the port's \<^verbatim>\<open>close\<close> event.\<close>

definition spClose :: "nat \<Rightarrow> env \<Rightarrow> znp \<Rightarrow> znp \<times> exn option" where
  "spClose d E s = emit d E ''close'' JUndefined (s\<lparr> txQueue := [], sp := None, init := False \<rparr>)"

text \<open>The listener \<^verbatim>\<open>spErr\<close> of the port's \<^verbatim>\<open>error\<close> event.\<close>

definition spErr :: "znp \<Rightarrow> znp \<times> exn option" where
  "spErr s =
     (case sp s of
        None \<Rightarrow> (s, Some (TypeError ''Cannot read properties of null''))
      | Some p \<Rightarrow>
          if isOpen p \<and> \<not> errClosing p
          then close_inner JUndefined (s\<lparr> sp := Some (p\<lparr> errClosing := True \<rparr>) \<rparr>)
          else (s, None))"

text \<open>
  \<^verbatim>\<open>close(callback)\<close>: the continuation of \<^verbatim>\<open>_sp.flush\<close> waits in \<open>flushQ\<close>.
\<close>

definition close :: "jsval \<Rightarrow> znp \<Rightarrow> znp \<times> exn option" where
  "close callback s =
     (if init s then
        (case sp s of
           None \<Rightarrow> (s, Some (TypeError ''Cannot read properties of null''))
         | Some p \<Rightarrow> (s\<lparr> flushQ := flushQ s @ [callback], spLog := spLog s @ [SpFlush] \<rparr>, None))
      else invoke SClose callback [JNull] s)"

section \<open>The event loop\<close>

text \<open>
  What can happen next: a call from the user (\<open>Request\<close>, \<open>Close\<close>, \<open>On\<close> to
  subscribe), a frame from the codec, time passing, the earliest timer that is due, the
  first pending immediate, and the serial port finishing a flush, finishing its close
  (with the argument of the callback) or reporting an error.
\<close>

datatype event =
    Request ident ident jsval jsval
  | Incoming frame
  | Advance nat
  | FireTimer
  | RunImmediate
  | On string nat
  | Close jsval
  | FlushDone
  | CloseDone jsval
  | SpError

definition note_exn :: "znp \<times> exn option \<Rightarrow> znp" where
  "note_exn r = (case r of (s, None) \<Rightarrow> s | (s, Some ex) \<Rightarrow> s\<lparr> thrown := thrown s @ [ex] \<rparr>)"

text \<open>The first timer of the least due time.\<close>

fun earliest :: "timer list \<Rightarrow> timer option" where
  "earliest [] = None"
| "earliest (t # ts) =
     (case earliest ts of
        None \<Rightarrow> Some t
      | Some u \<Rightarrow> if due u < due t then Some u else Some t)"

definition fire_timer :: "nat \<Rightarrow> env \<Rightarrow> znp \<Rightarrow> znp \<times> exn option" where
  "fire_timer d E s =
     (case earliest (filter (\<lambda>t. due t \<le> now s) (timers s)) of
        None \<Rightarrow> (s, None)
      | Some t \<Rightarrow>
          (case action t of
             TSreqTimeout tid \<Rightarrow> sreqTimeout_cb d E tid (clearTimeout (tmid t) s)
           | TSreqNextQueue tid \<Rightarrow> (sreqNextQueue_cb E tid (clearTimeout (tmid t) s), None)
           | TResetFailsafe \<Rightarrow> (resetFailsafe_cb (clearTimeout (tmid t) s), None)))"

definition run_immediate :: "nat \<Rightarrow> env \<Rightarrow> znp \<Rightarrow> znp \<times> exn option" where
  "run_immediate d E s =
     (case immediates s of
        [] \<Rightarrow> (s, None)
      | k # ks \<Rightarrow>
          (case k of
             KSweep tid \<Rightarrow>
               if tid < length (txns s)
               then sweep d E (tbacklog (txns s ! tid)) (s\<lparr> immediates := ks \<rparr>)
               else (s\<lparr> immediates := ks \<rparr>, None)
           | KTxDeQueue e \<Rightarrow> entry_fn E e (s\<lparr> immediates := ks \<rparr>)))"

definition flush_done :: "znp \<Rightarrow> znp \<times> exn option" where
  "flush_done s =
     (case flushQ s of
        [] \<Rightarrow> (s, None)
      | cb # q \<Rightarrow> close_inner cb (s\<lparr> flushQ := q \<rparr>))"

text \<open>The port has closed: it emits \<^verbatim>\<open>close\<close>, then calls the callback of its \<^verbatim>\<open>close\<close>.\<close>

definition close_done :: "nat \<Rightarrow> env \<Rightarrow> jsval \<Rightarrow> znp \<Rightarrow> znp \<times> exn option" where
  "close_done d E arg s =
     (if closeWait s = 0 then (s, None)
      else
        (case spClose d E (s\<lparr> closeWait := closeWait s - 1 \<rparr>) of
           (s1, Some ex) \<Rightarrow> (s1, Some ex)
         | (s1, None) \<Rightarrow> close_cb arg s1))"

definition step :: "nat \<Rightarrow> env \<Rightarrow> event \<Rightarrow> znp \<Rightarrow> znp" where
  "step d E ev s =
     (case ev of
        Request subsys cmd valObj callback \<Rightarrow> note_exn (request E subsys cmd valObj callback s)
      | Incoming data \<Rightarrow> note_exn (parseMtIncomingData d E data s)
      | Advance ms \<Rightarrow> s\<lparr> now := now s + ms \<rparr>
      | FireTimer \<Rightarrow> note_exn (fire_timer d E s)
      | RunImmediate \<Rightarrow> note_exn (run_immediate d E s)
      | On evt n \<Rightarrow> addListener evt False (HUser n) s
      | Close callback \<Rightarrow> note_exn (close callback s)
      | FlushDone \<Rightarrow> note_exn (flush_done s)
      | CloseDone arg \<Rightarrow> note_exn (close_done d E arg s)
      | SpError \<Rightarrow> note_exn (spErr s))"

definition run :: "nat \<Rightarrow> env \<Rightarrow> event list \<Rightarrow> znp \<Rightarrow> znp" where
  "run d E evs s = foldl (\<lambda>s ev. step d E ev s) s evs"

text \<open>The engine once \<^verbatim>\<open>init\<close> has opened the port.\<close>

definition opened :: znp where
  "opened = CcZnp\<lparr> init := True, sp := Some \<lparr> isOpen = True, errClosing = False \<rparr> \<rparr>"

section \<open>A sample translator and sample traces\<close>

text \<open>
  Modelled from the spec: the Command Schema Translator (\<^verbatim>\<open>lib/zpiObject.js\<close>,
  \<^verbatim>\<open>lib/zmeta.js\<close>), which is not among the sources at hand. It "maps a (subsystem,
  command) pair to symbolic names and numeric codes, encodes a structured argument object
  into payload bytes for an outgoing command, and decodes payload bytes into a structured
  result for an incoming frame"; it can fail to resolve a command and can fail to encode
  a request. The sample below knows the commands of the spec's scenarios by name and by
  code, throws on anything else, and cannot encode an argument object that has a property
  \<^verbatim>\<open>unencodable\<close>. It is used for concrete examples only; every general theorem holds
  for all translators.
\<close>

definition demoSubsys :: "jsval \<Rightarrow> string option" where
  "demoSubsys v =
     (if v = JStr ''RES0'' \<or> v = JNum 0 then Some ''RES0''
      else if v = JStr ''SYS'' \<or> v = JNum 1 then Some ''SYS''
      else if v = JStr ''ZDO'' \<or> v = JNum 5 then Some ''ZDO''
      else None)"

definition demoCmd :: "string \<Rightarrow> jsval \<Rightarrow> (string \<times> int \<times> string) option" where
  "demoCmd sub v =
     (if sub = ''SYS'' \<and> (v = JStr ''resetReq'' \<or> v = JNum 0) then Some (''resetReq'', 0, ''AREQ'')
      else if sub = ''SYS'' \<and> (v = JStr ''ping'' \<or> v = JNum 1) then Some (''ping'', 1, ''SREQ'')
      else if sub = ''SYS'' \<and> (v = JStr ''nvWrite'' \<or> v = JNum 9) then Some (''nvWrite'', 9, ''SREQ'')
      else if sub = ''SYS'' \<and> (v = JStr ''resetInd'' \<or> v = JNum 128) then Some (''resetInd'', 128, ''AREQ'')
      else if sub = ''ZDO'' \<and> (v = JStr ''bind'' \<or> v = JNum 33) then Some (''bind'', 33, ''SREQ'')
      else if sub = ''RES0'' \<and> (v = JStr ''error'' \<or> v = JNum 0) then Some (''error'', 0, ''SRSP'')
      else None)"

definition demoZpiObject :: "jsval \<Rightarrow> jsval \<Rightarrow> jsval \<Rightarrow> exn + zpiobj" where
  "demoZpiObject subsys cmd valObj =
     (case demoSubsys subsys of
        None \<Rightarrow> Inl (Error ''Unrecognized subsystem'')
      | Some sub \<Rightarrow>
          (case demoCmd sub cmd of
             None \<Rightarrow> Inl (Error ''Unrecognized command'')
           | Some (c, cid, ty) \<Rightarrow>
               Inr \<lparr> ztype = ty, zsubsys = sub, zcmd = c, zcmdId = cid,
                     zframe = (case valObj of
                                 JObj fs \<Rightarrow> if map_of fs ''unencodable'' = None then Some [] else None
                               | _ \<Rightarrow> None) \<rparr>))"

definition demoCmdTypeKey :: "jsval \<Rightarrow> string option" where
  "demoCmdTypeKey v =
     (if v = JNum 0 \<or> v = JStr ''POLL'' then Some ''POLL''
      else if v = JNum 1 \<or> v = JStr ''SREQ'' then Some ''SREQ''
      else if v = JNum 2 \<or> v = JStr ''AREQ'' then Some ''AREQ''
      else if v = JNum 3 \<or> v = JStr ''SRSP'' then Some ''SRSP''
      else None)"

text \<open>
  The conversion of a string to a number, right for strings of decimal digits, for the
  empty string, and for the symbolic names above (which are \<^verbatim>\<open>NaN\<close>).
\<close>

definition demoStringToNumber :: "string \<Rightarrow> int option" where
  "demoStringToNumber s =
     (if s = [] then Some 0
      else if list_all (\<lambda>c. c \<in> set ''0123456789'') s
      then Some (foldl (\<lambda>a c. 10 * a + (int (of_char c) - 48)) 0 s)
      else None)"

definition demoEnv :: env where
  "demoEnv = \<lparr> ZpiObject = demoZpiObject, cmdTypeKey = demoCmdTypeKey,
     zparse = (\<lambda>obj ty n p. (JNull, p)), stringToNumber = demoStringToNumber \<rparr>"

text \<open>An inbound frame with a good checksum.\<close>

definition inbound :: "int \<Rightarrow> int \<Rightarrow> int \<Rightarrow> jsval \<Rightarrow> frame" where
  "inbound ty sub c p = \<lparr> sof = 254, len = 0, ftype = JNum ty, fsubsys = JNum sub, fcmd = JNum c,
     payload = p, fcs = 7, csum = 7 \<rparr>"

definition pingEntry :: entry where
  "pingEntry = \<lparr> esubsys = IStr ''SYS'', ecmd = IStr ''ping'', evalObj = JObj [],
     ecallback = JFunction 1 \<rparr>"

text \<open>
  Sample events: three requests with function callbacks, a reset request, the replies
  to \<^verbatim>\<open>ZDO:bind\<close> and \<^verbatim>\<open>SYS:ping\<close>, the reset indication, and a frame whose
  checksum fields differ.
\<close>

definition reqA :: event where
  "reqA = Request (IStr ''SYS'') (IStr ''ping'') (JObj []) (JFunction 1)"

definition reqB :: event where
  "reqB = Request (IStr ''ZDO'') (IStr ''bind'') (JObj []) (JFunction 2)"

definition reqR :: event where
  "reqR = Request (IStr ''SYS'') (IStr ''resetReq'') (JObj []) (JFunction 4)"

definition reqC :: event where
  "reqC = Request (IStr ''SYS'') (IStr ''ping'') (JObj []) (JFunction 3)"

definition okB :: event where
  "okB = Incoming (inbound 3 5 33 (JObj [(''status'', JNum 0)]))"

definition okA :: event where
  "okA = Incoming (inbound 3 1 1 (JObj [(''capabilities'', JNum 89)]))"

text \<open>
  \<^verbatim>\<open>SYS:ping\<close> is sent and gets no reply; a second request is queued behind it; after
  1800 ms the promotion timer of the first promotes the second, which is then sent from
  its \<^verbatim>\<open>setImmediate\<close>. The second request is \<^verbatim>\<open>ZDO:bind\<close> in \<open>trPromoteB\<close> and the
  reset command in \<open>trPromoteR\<close>.
\<close>

definition trPromoteB :: "event list" where
  "trPromoteB = [reqA, reqB, Advance 1800, FireTimer, RunImmediate]"

definition trPromoteR :: "event list" where
  "trPromoteR = [reqA, reqR, Advance 1800, FireTimer, RunImmediate]"

text \<open>The closure variables of the first request once its promotion timer has run.\<close>

definition txnA :: txn where
  "txnA = \<lparr> targObj = \<lparr> ztype = ''SREQ'', zsubsys = ''SYS'', zcmd = ''ping'', zcmdId = 1,
                         zframe = Some [] \<rparr>,
     tvalObj = JObj [], tcallback = JFunction 1, srspEvt = ''SRSP:SYS:ping'', tbacklog = [BArray],
     sreqTimeout = Some 1, sreqNextQueue = None,
     ownEvent = Some \<lparr> bid = 0, bevt = ''SRSP:SYS:ping'', bsubsys = ''SYS'', bcmd = ''ping'' \<rparr> \<rparr>"

text \<open>The state that \<open>trPromoteR\<close> leads to.\<close>

definition stPromoteR :: znp where
  "stPromoteR = \<lparr> init = True, resetting = True, sp = Some \<lparr> isOpen = True, errClosing = False \<rparr>,
     spinLock = True, txQueue = [],
     backlog = [\<lparr> bid = 0, bevt = ''SRSP:SYS:ping'', bsubsys = ''SYS'', bcmd = ''ping'' \<rparr>],
     closeCbs = [],
     listeners = [\<lparr> lid = 0, levt = ''SRSP:RES0:error'', lonce = False, lhandler = HResError \<rparr>,
                  \<lparr> lid = 3, levt = ''SRSP:SYS:ping'', lonce = True, lhandler = HSrsp 0 \<rparr>,
                  \<lparr> lid = 4, levt = ''AREQ:SYS:RESET'', lonce = True, lhandler = HReset (JFunction 4) \<rparr>],
     timers = [\<lparr> tmid = 1, due = 3500, action = TSreqTimeout 0 \<rparr>,
               \<lparr> tmid = 5, due = 31800, action = TResetFailsafe \<rparr>],
     immediates = [], txns = [txnA], flushQ = [], closeWait = 0, now = 1800, nextId = 6, calls = [],
     wire = [(''SREQ'', ''SYS'', 1, []), (''AREQ'', ''SYS'', 0, [])], notified = [], spLog = [],
     thrown = [] \<rparr>"

definition resetInd :: event where
  "resetInd = Incoming (inbound 2 1 128 (JObj [(''reason'', JNum 0)]))"

definition badFrame :: frame where
  "badFrame = \<lparr> sof = 254, len = 0, ftype = JNum 3, fsubsys = JNum 1, fcmd = JNum 1,
     payload = JObj [], fcs = 7, csum = 8 \<rparr>"

definition bindEntry :: entry where
  "bindEntry = \<lparr> esubsys = IStr ''ZDO'', ecmd = IStr ''bind'', evalObj = JObj [],
     ecallback = JFunction 2 \<rparr>"

definition pingEntry3 :: entry where
  "pingEntry3 = \<lparr> esubsys = IStr ''SYS'', ecmd = IStr ''ping'', evalObj = JObj [],
     ecallback = JFunction 3 \<rparr>"

definition resetObj :: zpiobj where
  "resetObj = \<lparr> ztype = ''AREQ'', zsubsys = ''SYS'', zcmd = ''resetReq'', zcmdId = 0,
     zframe = Some [] \<rparr>"

definition pingBacklog :: bentry where
  "pingBacklog = \<lparr> bid = 0, bevt = ''SRSP:SYS:ping'', bsubsys = ''SYS'', bcmd = ''ping'' \<rparr>"

text \<open>The closure variables of \<^verbatim>\<open>ZDO:bind\<close> when it has just been sent.\<close>

definition txnB :: txn where
  "txnB = \<lparr> targObj = \<lparr> ztype = ''SREQ'', zsubsys = ''ZDO'', zcmd = ''bind'', zcmdId = 33,
                         zframe = Some [] \<rparr>,
     tvalObj = JObj [], tcallback = JFunction 2, srspEvt = ''SRSP:ZDO:bind'', tbacklog = [BArray],
     sreqTimeout = Some 4, sreqNextQueue = Some 5, ownEvent = None \<rparr>"

text \<open>The state that \<open>trPromoteB\<close> leads to.\<close>

definition stPromoteB :: znp where
  "stPromoteB = \<lparr> init = True, resetting = False, sp = Some \<lparr> isOpen = True, errClosing = False \<rparr>,
     spinLock = True, txQueue = [],
     backlog = [\<lparr> bid = 0, bevt = ''SRSP:SYS:ping'', bsubsys = ''SYS'', bcmd = ''ping'' \<rparr>],
     closeCbs = [],
     listeners = [\<lparr> lid = 0, levt = ''SRSP:RES0:error'', lonce = False, lhandler = HResError \<rparr>,
                  \<lparr> lid = 3, levt = ''SRSP:SYS:ping'', lonce = True, lhandler = HSrsp 0 \<rparr>,
                  \<lparr> lid = 6, levt = ''SRSP:ZDO:bind'', lonce = True, lhandler = HSrsp 1 \<rparr>],
     timers = [\<lparr> tmid = 1, due = 3500, action = TSreqTimeout 0 \<rparr>,
               \<lparr> tmid = 4, due = 5300, action = TSreqTimeout 1 \<rparr>,
               \<lparr> tmid = 5, due = 3600, action = TSreqNextQueue 1 \<rparr>],
     immediates = [], txns = [txnA, txnB], flushQ = [], closeWait = 0, now = 1800, nextId = 7,
     calls = [], wire = [(''SREQ'', ''SYS'', 1, []), (''SREQ'', ''ZDO'', 33, [])], notified = [],
     spLog = [], thrown = [] \<rparr>"

text \<open>The user listeners among \<open>ls\<close>.\<close>

fun users :: "listener list \<Rightarrow> nat list" where
  "users [] = []"
| "users (l # ls) = (case lhandler l of HUser n \<Rightarrow> n # users ls | _ \<Rightarrow> users ls)"

text \<open>The number of \<^verbatim>\<open>_sp.close\<close> calls in a log of port operations.\<close>

definition closes :: "spop list \<Rightarrow> nat" where
  "closes l = length (filter (\<lambda>p. p = SpClose) l)"

definition is_fun :: "jsval \<Rightarrow> bool" where
  "is_fun v = (case v of JFunction f \<Rightarrow> True | _ \<Rightarrow> False)"

text \<open>
  A request without a callback, which \<^verbatim>\<open>request\<close> accepts, and its queue entry.
\<close>

definition reqU :: event where
  "reqU = Request (IStr ''ZDO'') (IStr ''bind'') (JObj []) JUndefined"

definition bindEntryU :: entry where
  "bindEntryU = \<lparr> esubsys = IStr ''ZDO'', ecmd = IStr ''bind'', evalObj = JObj [],
     ecallback = JUndefined \<rparr>"

subsection \<open>Counting the calls of a result callback\<close>

text \<open>
  The reply listener of transaction \<open>tid\<close> calls the transaction's callback at the site
  \<open>SListener tid\<close>, and nothing else calls at that site: \<open>settles\<close> counts these calls.
  The transaction is \<open>pending\<close> while its reply listener is attached.
\<close>

definition settles :: "nat \<Rightarrow> znp \<Rightarrow> nat" where
  "settles tid s = length (filter (\<lambda>c. fst c = SListener tid) (calls s))"

definition pending :: "nat \<Rightarrow> znp \<Rightarrow> bool" where
  "pending tid s = list_ex (\<lambda>l. lhandler l = HSrsp tid) (listeners s)"

text \<open>
  The emitter's table is in order: a reply listener is a \<^verbatim>\<open>once\<close> listener of the
  event of a transaction that exists and whose callback has not been called; listeners
  differ in their identities and reply listeners in their transactions; no callback of a
  reply listener has been called twice, and none for a transaction that does not exist.
\<close>

definition table_ok :: "znp \<Rightarrow> bool" where
  "table_ok s \<longleftrightarrow>
     (\<forall>l \<in> set (listeners s). lid l < nextId s \<and>
        (\<forall>tid. lhandler l = HSrsp tid \<longrightarrow>
           lonce l \<and> tid < length (txns s) \<and> levt l = srspEvt (txns s ! tid) \<and> settles tid s = 0))"

definition ids_ok :: "znp \<Rightarrow> bool" where
  "ids_ok s \<longleftrightarrow>
     (\<forall>l \<in> set (listeners s). \<forall>m \<in> set (listeners s).
        lid l = lid m \<or> (\<exists>tid. lhandler l = HSrsp tid \<and> lhandler m = HSrsp tid) \<longrightarrow> l = m)"

definition counts_ok :: "znp \<Rightarrow> bool" where
  "counts_ok s \<longleftrightarrow> (\<forall>tid. settles tid s \<le> 1 \<and> (length (txns s) \<le> tid \<longrightarrow> settles tid s = 0))"

definition wfz :: "znp \<Rightarrow> bool" where
  "wfz s \<longleftrightarrow> table_ok s \<and> ids_ok s \<and> counts_ok s"

text \<open>
  What any code run from an event handler may do to the table: it attaches no listener and
  allocates no identity, it leaves events and callbacks of transactions alone, and it calls a
  callback at most once more, and then only when the reply listener has gone.
\<close>

definition rel :: "znp \<Rightarrow> znp \<Rightarrow> bool" where
  "rel s s' \<longleftrightarrow>
     set (listeners s') \<subseteq> set (listeners s) \<and> nextId s' = nextId s \<and>
     length (txns s') = length (txns s) \<and>
     (\<forall>i. srspEvt (txns s' ! i) = srspEvt (txns s ! i) \<and> tcallback (txns s' ! i) = tcallback (txns s ! i)) \<and>
     (\<forall>tid. settles tid s \<le> settles tid s' \<and>
        settles tid s' \<le> settles tid s + (if pending tid s \<and> \<not> pending tid s' then 1 else 0))"

text \<open>Code that neither touches the table nor calls a callback.\<close>

definition same :: "znp \<Rightarrow> znp \<Rightarrow> bool" where
  "same s s' \<longleftrightarrow>
     listeners s' = listeners s \<and> nextId s' = nextId s \<and> calls s' = calls s \<and>
     length (txns s') = length (txns s) \<and>
     (\<forall>i. srspEvt (txns s' ! i) = srspEvt (txns s ! i) \<and> tcallback (txns s' ! i) = tcallback (txns s ! i))"

text \<open>
  The copy of the listeners that \<^verbatim>\<open>emit\<close> walks through: reply listeners in it are
  \<^verbatim>\<open>once\<close> listeners, and an attached listener with the identity of one of the copy is
  that one.
\<close>

definition snap :: "listener list \<Rightarrow> znp \<Rightarrow> bool" where
  "snap ls s \<longleftrightarrow>
     (\<forall>l \<in> set ls. (\<forall>tid. lhandler l = HSrsp tid \<longrightarrow> lonce l) \<and>
        (\<forall>m \<in> set (listeners s). lid m = lid l \<longrightarrow> m = l))"

text \<open>A step keeps the table in order and forgets no call.\<close>

definition good :: "znp \<Rightarrow> znp \<Rightarrow> bool" where
  "good s s' \<longleftrightarrow> wfz s' \<and> (\<forall>tid. settles tid s \<le> settles tid s')"

text \<open>Every attached reply listener and reset listener has a function for its callback.\<close>

definition cbs_fun :: "znp \<Rightarrow> bool" where
  "cbs_fun s \<longleftrightarrow>
     (\<forall>l \<in> set (listeners s).
        (\<forall>tid. lhandler l = HSrsp tid \<longrightarrow> is_fun (tcallback (txns s ! tid))) \<and>
        (\<forall>cb. lhandler l = HReset cb \<longrightarrow> is_fun cb))"

text \<open>\<open>rel\<close>, and a callback is called whenever its reply listener goes.\<close>

definition relx :: "znp \<Rightarrow> znp \<Rightarrow> bool" where
  "relx s s' \<longleftrightarrow>
     rel s s' \<and> (\<forall>tid. pending tid s \<and> \<not> pending tid s' \<longrightarrow> settles tid s' = settles tid s + 1)"

definition snapf :: "listener list \<Rightarrow> znp \<Rightarrow> bool" where
  "snapf ls s \<longleftrightarrow> snap ls s \<and> (\<forall>l \<in> set ls. \<forall>cb. lhandler l = HReset cb \<longrightarrow> is_fun cb)"

subsection \<open>Timers of transactions\<close>

text \<open>
  The request carries a function as its callback.
\<close>

definition fun_req :: "event \<Rightarrow> bool" where
  "fun_req ev = (case ev of Request subsys cmd valObj callback \<Rightarrow> is_fun callback | _ \<Rightarrow> True)"

text \<open>
  Every request that waits in the transmit queue or in a deferred retry carries a function
  as its callback.
\<close>

definition qfun :: "znp \<Rightarrow> bool" where
  "qfun s \<longleftrightarrow>
     (\<forall>e \<in> set (txQueue s). is_fun (ecallback e)) \<and>
     (\<forall>k \<in> set (immediates s). \<forall>e. k = KTxDeQueue e \<longrightarrow> is_fun (ecallback e))"

text \<open>
  The transaction to which a timer of \<^verbatim>\<open>_sendSREQ\<close> belongs.
\<close>

definition owner :: "timer \<Rightarrow> nat option" where
  "owner tm = (case action tm of TSreqTimeout t \<Rightarrow> Some t | TSreqNextQueue t \<Rightarrow> Some t
     | TResetFailsafe \<Rightarrow> None)"

text \<open>
  The timer handles that the closure variables \<^verbatim>\<open>sreqTimeout\<close> and
  \<^verbatim>\<open>sreqNextQueue\<close> of a transaction hold.
\<close>

definition handles :: "txn \<Rightarrow> nat set" where
  "handles t = set_option (sreqTimeout t) \<union> set_option (sreqNextQueue t)"

text \<open>
  Pending timers differ in their handles, and a handle that a transaction holds is the
  handle of none but its own timers.
\<close>

definition timers_ok :: "znp \<Rightarrow> bool" where
  "timers_ok s \<longleftrightarrow>
     distinct (map tmid (timers s)) \<and>
     (\<forall>tm \<in> set (timers s). tmid tm < nextId s) \<and>
     (\<forall>tid h. tid < length (txns s) \<and> h \<in> handles (txns s ! tid) \<longrightarrow>
        h < nextId s \<and> (\<forall>tm \<in> set (timers s). tmid tm = h \<longrightarrow> owner tm = Some tid))"

text \<open>
  The 3500 ms timer of every pending transaction outside \<open>X\<close> is pending.
\<close>

definition armed_but :: "nat set \<Rightarrow> znp \<Rightarrow> bool" where
  "armed_but X s \<longleftrightarrow>
     (\<forall>tid. pending tid s \<and> tid \<notin> X \<longrightarrow> (\<exists>tm \<in> set (timers s). action tm = TSreqTimeout tid))"

text \<open>
  Every transaction that was sent is pending or its callback has been called once.
\<close>

definition accounted :: "znp \<Rightarrow> bool" where
  "accounted s \<longleftrightarrow> (\<forall>tid < length (txns s). pending tid s \<or> settles tid s = 1)"

text \<open>
  What code that attaches no listener does to timers, handles and queued requests: it
  clears no timer but those whose handles are in \<open>H\<close>, sets no timer, gives no handle
  to a transaction, and adds no request to the queue or to the deferred retries.
\<close>

definition kp :: "nat set \<Rightarrow> znp \<Rightarrow> znp \<Rightarrow> bool" where
  "kp H s s' \<longleftrightarrow>
     set (timers s') \<subseteq> set (timers s) \<and>
     (\<forall>tm \<in> set (timers s). tm \<in> set (timers s') \<or> tmid tm \<in> H) \<and>
     (distinct (map tmid (timers s)) \<longrightarrow> distinct (map tmid (timers s'))) \<and>
     (\<forall>i. handles (txns s' ! i) \<subseteq> handles (txns s ! i)) \<and>
     (qfun s \<longrightarrow> qfun s')"

text \<open>
  The same for code that runs listeners: a timer is cleared only when its transaction is
  no longer pending.
\<close>

definition kept :: "znp \<Rightarrow> znp \<Rightarrow> bool" where
  "kept s s' \<longleftrightarrow>
     set (timers s') \<subseteq> set (timers s) \<and>
     (\<forall>tm \<in> set (timers s). tm \<in> set (timers s') \<or> (\<exists>tid. owner tm = Some tid \<and> \<not> pending tid s')) \<and>
     (distinct (map tmid (timers s)) \<longrightarrow> distinct (map tmid (timers s'))) \<and>
     (\<forall>i. handles (txns s' ! i) \<subseteq> handles (txns s ! i)) \<and>
     (qfun s \<longrightarrow> qfun s')"

definition relt :: "znp \<Rightarrow> znp \<Rightarrow> bool" where
  "relt s s' \<longleftrightarrow> relx s s' \<and> kept s s'"

definition ok :: "znp \<Rightarrow> bool" where
  "ok s \<longleftrightarrow> wfz s \<and> cbs_fun s \<and> timers_ok s"

text \<open>
  The invariant of the engine when every request carries a function as its callback.
\<close>

definition live :: "znp \<Rightarrow> bool" where
  "live s \<longleftrightarrow> wfz s \<and> cbs_fun s \<and> qfun s \<and> timers_ok s \<and> armed_but {} s \<and> accounted s"

section \<open>Evaluation\<close>

lemmas engine_defs = run_def step_def note_exn_def request_def sendSREQ_def sendAREQ_def
  scheduleNextSend_def entry_fn_def srsp_listener_def reset_listener_def res_error_target_def
  run_handler_def registered_def listenersOf_def listenerCount_def addListener_def
  removeListener_def setTimeout_def clearTimeout_def setImmediate_def invoke_def unpi_send_def
  collides_def splice1_def upd_txn_def new_Array_def sreqTimeout_cb_def sreqNextQueue_cb_def
  resetFailsafe_cb_def frame_val_def mtIncomingDataHdlr_def parseMtIncomingData_def
  close_inner_def close_cb_def spClose_def spErr_def close_def fire_timer_def run_immediate_def
  flush_done_def close_done_def opened_def CcZnp_def and0xF_def

lemmas demo_defs = demoEnv_def demoZpiObject_def demoSubsys_def demoCmd_def demoCmdTypeKey_def
  demoStringToNumber_def inbound_def pingEntry_def

lemma invoke_fun [simp]:
  "invoke st (JFunction n) args s = (s\<lparr> calls := calls s @ [(st, JFunction n, args)] \<rparr>, None)"
  by (simp add: invoke_def)

section \<open>Admission\<close>



section \<open>The retry closure\<close>

text \<open>
  C10, as the claim states it, fails. \<^verbatim>\<open>request\<close> accepts a request without a callback
  and queues it when the gate is Busy. Here \<^verbatim>\<open>ZDO:bind\<close> is queued without a callback
  behind \<^verbatim>\<open>SYS:ping\<close>, the promotion timer defers its retry closure, and the port closes
  before the closure runs. The inner \<^verbatim>\<open>request\<close> throws, the \<^verbatim>\<open>catch\<close> calls
  \<^verbatim>\<open>callback(ex)\<close> with \<^verbatim>\<open>callback\<close> undefined, and a \<^verbatim>\<open>TypeError\<close> leaves the
  closure.
\<close>

theorem retry_without_callback_throws:
  "request demoEnv (IStr ''ZDO'') (IStr ''bind'') (JObj []) JUndefined (opened\<lparr> spinLock := True \<rparr>)
     = (opened\<lparr> spinLock := True, txQueue := [bindEntryU] \<rparr>, None)
   \<and> entry_fn demoEnv bindEntryU (opened\<lparr> init := False \<rparr>)
     = (opened\<lparr> init := False \<rparr>, Some (TypeError ''callback is not a function''))
   \<and> immediates (run 1 demoEnv [reqA, reqU, Advance 1800, FireTimer] opened) = [KTxDeQueue bindEntryU]
   \<and> \<not> init (run 1 demoEnv
        [reqA, reqU, Advance 1800, FireTimer, Close (JFunction 9), FlushDone, CloseDone JNull] opened)
   \<and> thrown (run 1 demoEnv
        [reqA, reqU, Advance 1800, FireTimer, Close (JFunction 9), FlushDone, CloseDone JNull] opened) = []
   \<and> thrown (run 1 demoEnv
        [reqA, reqU, Advance 1800, FireTimer, Close (JFunction 9), FlushDone, CloseDone JNull,
         RunImmediate] opened) = [TypeError ''callback is not a function'']
   \<and> calls (run 1 demoEnv
        [reqA, reqU, Advance 1800, FireTimer, Close (JFunction 9), FlushDone, CloseDone JNull,
         RunImmediate] opened) = [(SClose, JFunction 9, [JNull])]"
  by (simp add: reqA_def reqU_def bindEntryU_def engine_defs demo_defs Let_def)

text \<open>
  C10, amended. When the retry closure of a queued request calls \<^verbatim>\<open>request\<close> again and
  that call throws: if the request has a callback function, the closure throws nothing and
  calls the callback with the exception as its argument; if the request was made without a
  callback, the closure throws a \<^verbatim>\<open>TypeError\<close> and no callback is called.
\<close>

theorem retry_closure_catches:
  assumes "request E (esubsys e) (ecmd e) (evalObj e) (ecallback e) s = (s', Some ex)"
  shows "(ecallback e = JFunction f \<longrightarrow>
            entry_fn E e s = (s'\<lparr> calls := calls s' @ [(SRetry, JFunction f, [JErr ex])] \<rparr>, None))
       \<and> (ecallback e = JUndefined \<longrightarrow>
            entry_fn E e s = (s', Some (TypeError ''callback is not a function'')))"
proof -
  have "entry_fn E e s = invoke SRetry (ecallback e) [JErr ex] s'"
    by (simp add: entry_fn_def assms)
  then show ?thesis by (simp add: invoke_def)
qed

text \<open>
  The entries are run after the engine has gone back to uninitialized.
\<close>

theorem retry_closure_catches_witness:
  "request demoEnv (esubsys pingEntry) (ecmd pingEntry) (evalObj pingEntry) (ecallback pingEntry)
       (opened\<lparr> init := False \<rparr>)
     = (opened\<lparr> init := False \<rparr>, Some (Error ''ccznp has not been initialized yet''))
   \<and> entry_fn demoEnv pingEntry (opened\<lparr> init := False \<rparr>)
     = (opened\<lparr> init := False,
          calls := [(SRetry, JFunction 1, [JErr (Error ''ccznp has not been initialized yet'')])] \<rparr>, None)
   \<and> entry_fn demoEnv bindEntryU (opened\<lparr> init := False \<rparr>)
     = (opened\<lparr> init := False \<rparr>, Some (TypeError ''callback is not a function''))"
  using retry_closure_catches [of demoEnv pingEntry "opened\<lparr> init := False \<rparr>" "opened\<lparr> init := False \<rparr>"
      "Error ''ccznp has not been initialized yet''" 1]
    retry_closure_catches [of demoEnv bindEntryU "opened\<lparr> init := False \<rparr>" "opened\<lparr> init := False \<rparr>"
      "Error ''ccznp has not been initialized yet''"]
  by (simp add: request_def opened_def CcZnp_def pingEntry_def bindEntryU_def)

lemmas ev_defs = reqA_def reqB_def reqR_def reqC_def okB_def okA_def trPromoteB_def trPromoteR_def

lemma run_append: "run d E (xs @ ys) s = run d E ys (run d E xs s)"
  by (simp add: run_def)

lemma run_trPromoteR: "run 1 demoEnv trPromoteR opened = stPromoteR"
  by (simp add: ev_defs engine_defs demo_defs stPromoteR_def txnA_def Let_def)

section \<open>Reset State and synchronous replies\<close>

text \<open>
  C9. When the reply listener of any synchronous transaction runs with a result that is
  neither the timeout marker nor the error marker, Reset State is cleared, whatever the
  transaction is.
\<close>

theorem success_clears_resetting:
  assumes "tid < length (txns s)" and "result \<noteq> JStr ''__timeout__''"
    and "result \<noteq> JStr ''__error__''"
  shows "\<not> resetting (fst (srsp_listener E tid result s))"
  using assms by (simp add: srsp_listener_def Let_def invoke_def split: jsval.split)

text \<open>
  A reset is pending after \<open>trPromoteR\<close> (Reset State is set), and the reply to the
  \<^verbatim>\<open>SYS:ping\<close> that was sent before it clears Reset State.
\<close>

theorem success_clears_resetting_witness:
  "resetting (run 1 demoEnv trPromoteR opened) \<and> 0 < length (txns (run 1 demoEnv trPromoteR opened))
   \<and> \<not> resetting (fst (srsp_listener demoEnv 0 (JObj [(''capabilities'', JNum 89)])
                        (run 1 demoEnv trPromoteR opened)))
   \<and> \<not> resetting (run 1 demoEnv (trPromoteR @ [okA]) opened)"
proof -
  have a: "resetting stPromoteR" "0 < length (txns stPromoteR)"
    by (simp_all add: stPromoteR_def)
  have b: "\<not> resetting (fst (srsp_listener demoEnv 0 (JObj [(''capabilities'', JNum 89)]) stPromoteR))"
    using success_clears_resetting [of 0 stPromoteR "JObj [(''capabilities'', JNum 89)]" demoEnv] a
    by simp
  have c: "\<not> resetting (run 1 demoEnv [okA] stPromoteR)"
    by (simp add: stPromoteR_def txnA_def okA_def engine_defs demo_defs Let_def)
  show ?thesis
    unfolding run_append run_trPromoteR using a b c by simp
qed

section \<open>Failures of the translator\<close>

text \<open>
  C5, as the claim states it, fails: the constructor \<^verbatim>\<open>new ZpiObject\<close> is called by
  \<^verbatim>\<open>request\<close> outside any \<^verbatim>\<open>try\<close>, so when the translator cannot resolve the
  command the exception goes to the caller and the callback is not called.
\<close>

theorem constructor_failure_is_thrown:
  "init opened \<and> truthy (JObj []) \<and> typeof (JObj []) = ''object'' \<and> typeof (JFunction 1) = ''function''
   \<and> ZpiObject demoEnv (ident_val (IStr ''SYS'')) (ident_val (IStr ''nope'')) (JObj [])
       = Inl (Error ''Unrecognized command'')
   \<and> request demoEnv (IStr ''SYS'') (IStr ''nope'') (JObj []) (JFunction 1) opened
       = (opened, Some (Error ''Unrecognized command''))
   \<and> calls opened = []"
  by (simp add: request_def demo_defs opened_def CcZnp_def)

text \<open>
  C5, amended. On an initialized engine, with an argument object and a callback that is
  a function: when the gate is Idle and the translator resolves the command but
  \<^verbatim>\<open>frame()\<close> gives no payload, \<^verbatim>\<open>request\<close> throws nothing, calls the callback once
  with \<^verbatim>\<open>Error('Fail to build frame')\<close>, sends nothing, and leaves the gate Busy; when
  the constructor throws, \<^verbatim>\<open>request\<close> throws that exception to its caller and changes
  nothing.
\<close>

theorem translator_failures:
  assumes "init s" and "truthy valObj" and "typeof valObj = ''object''" and "callback = JFunction f"
  shows "(\<not> spinLock s \<and> ZpiObject E (ident_val subsys) (ident_val cmd) valObj = Inr argObj
            \<and> zframe argObj = None \<and> (ztype argObj = ''SREQ'' \<or> ztype argObj = ''AREQ'')
          \<longrightarrow> request E subsys cmd valObj callback s =
                (s\<lparr> spinLock := True,
                    calls := calls s @ [(SBuild, callback, [JErr (Error ''Fail to build frame'')])] \<rparr>,
                 None))
       \<and> (ZpiObject E (ident_val subsys) (ident_val cmd) valObj = Inl ex
          \<longrightarrow> request E subsys cmd valObj callback s = (s, Some ex))"
  using assms by (auto simp: request_def sendSREQ_def sendAREQ_def)

theorem translator_failures_witness:
  "request demoEnv (IStr ''SYS'') (IStr ''ping'') (JObj [(''unencodable'', JNull)]) (JFunction 1) opened
     = (opened\<lparr> spinLock := True,
          calls := [(SBuild, JFunction 1, [JErr (Error ''Fail to build frame'')])] \<rparr>, None)
   \<and> request demoEnv (IStr ''SYS'') (IStr ''nope'') (JObj []) (JFunction 1) (opened\<lparr> spinLock := True \<rparr>)
     = (opened\<lparr> spinLock := True \<rparr>, Some (Error ''Unrecognized command''))"
  using translator_failures [of opened "JObj [(''unencodable'', JNull)]" "JFunction 1" 1 demoEnv
      "IStr ''SYS''" "IStr ''ping''"
      "\<lparr> ztype = ''SREQ'', zsubsys = ''SYS'', zcmd = ''ping'', zcmdId = 1, zframe = None \<rparr>"
      "Error ''x''"]
    translator_failures [of "opened\<lparr> spinLock := True \<rparr>" "JObj []" "JFunction 1" 1 demoEnv
      "IStr ''SYS''" "IStr ''nope''"
      "\<lparr> ztype = ''SREQ'', zsubsys = ''SYS'', zcmd = ''ping'', zcmdId = 1, zframe = None \<rparr>"
      "Error ''Unrecognized command''"]
  by (simp add: demo_defs opened_def CcZnp_def)

lemmas ev2_defs = resetInd_def badFrame_def bindEntry_def pingEntry3_def resetObj_def pingBacklog_def

lemmas st_defs = stPromoteB_def stPromoteR_def txnA_def txnB_def

lemma run_trPromoteB: "run 1 demoEnv trPromoteB opened = stPromoteB"
  by (simp add: ev_defs engine_defs demo_defs stPromoteB_def txnA_def txnB_def Let_def)

section \<open>Frames with a bad checksum\<close>

text \<open>
  When every listener of an event is a user's, \<^verbatim>\<open>emit\<close> notifies them in order and
  does nothing else.
\<close>

lemma run_ls_users:
  assumes "\<forall>l \<in> set ls. \<not> lonce l \<and> levt l = evt \<and> (\<exists>n. lhandler l = HUser n)"
  shows "run_ls nested E ls arg s =
           (s\<lparr> notified := notified s @ map (\<lambda>n. (n, evt, arg)) (users ls) \<rparr>, None)"
  using assms
proof (induction ls arbitrary: s)
  case Nil
  then show ?case by simp
next
  case (Cons l ls)
  then obtain n where n: "lhandler l = HUser n" and o: "\<not> lonce l" and e: "levt l = evt"
    by auto
  have "run_ls nested E (l # ls) arg s
      = run_ls nested E ls arg (s\<lparr> notified := notified s @ [(n, evt, arg)] \<rparr>)"
    using n o e by (simp add: run_handler_def)
  also have "\<dots> = (s\<lparr> notified := notified s @ map (\<lambda>n. (n, evt, arg)) (users (l # ls)) \<rparr>, None)"
    using Cons n by simp
  finally show ?case .
qed

lemma emit_users:
  assumes "\<forall>l \<in> set (listenersOf evt s). \<not> lonce l \<and> (\<exists>n. lhandler l = HUser n)"
  shows "emit d E evt arg s =
           (s\<lparr> notified := notified s @ map (\<lambda>n. (n, evt, arg)) (users (listenersOf evt s)) \<rparr>, None)"
proof -
  have a: "\<forall>l \<in> set (listenersOf evt s). \<not> lonce l \<and> levt l = evt \<and> (\<exists>n. lhandler l = HUser n)"
    using assms by (auto simp: listenersOf_def)
  show ?thesis by (cases d) (simp_all add: run_ls_users [OF a])
qed

text \<open>
  C4, as the claim states it, fails: \<^verbatim>\<open>_parseMtIncomingData\<close> emits \<^verbatim>\<open>data\<close> before
  it compares the checksum fields, so a subscriber of \<^verbatim>\<open>data\<close> is notified of the bad
  frame.
\<close>

theorem bad_checksum_notifies_data_subscriber:
  "fcs badFrame \<noteq> csum badFrame
   \<and> notified (run 1 demoEnv [On ''data'' 7, reqA] opened) = []
   \<and> notified (run 1 demoEnv [On ''data'' 7, reqA, Incoming badFrame] opened)
       = [(7, ''data'', frame_val badFrame)]"
  by (simp add: badFrame_def ev_defs engine_defs demo_defs Let_def)

text \<open>
  C4, amended. For an inbound frame whose checksum fields differ, when the listeners of
  \<^verbatim>\<open>data\<close> are the users' own, processing notifies those listeners of the frame and
  does nothing else: the state is otherwise the same (no other event is emitted, no
  listener is removed, no callback is called, no timer is touched) and nothing is thrown.
\<close>

theorem bad_checksum_only_data_event:
  assumes "fcs data \<noteq> csum data"
    and "\<forall>l \<in> set (listenersOf ''data'' s). \<not> lonce l \<and> (\<exists>n. lhandler l = HUser n)"
  shows "parseMtIncomingData d E data s =
     (s\<lparr> notified := notified s @
            map (\<lambda>n. (n, ''data'', frame_val data)) (users (listenersOf ''data'' s)) \<rparr>, None)"
  using assms(1)
  by (simp add: parseMtIncomingData_def mtIncomingDataHdlr_def emit_users [OF assms(2)])

theorem bad_checksum_only_data_event_witness:
  "fcs badFrame \<noteq> csum badFrame
   \<and> listenersOf ''data'' (run 1 demoEnv [On ''data'' 7, reqA] opened)
       = [\<lparr> lid = 1, levt = ''data'', lonce = False, lhandler = HUser 7 \<rparr>]
   \<and> parseMtIncomingData 1 demoEnv badFrame (run 1 demoEnv [On ''data'' 7, reqA] opened)
       = ((run 1 demoEnv [On ''data'' 7, reqA] opened)
            \<lparr> notified := [(7, ''data'', frame_val badFrame)] \<rparr>, None)"
proof -
  define s where "s = run 1 demoEnv [On ''data'' 7, reqA] opened"
  have l: "listenersOf ''data'' s = [\<lparr> lid = 1, levt = ''data'', lonce = False, lhandler = HUser 7 \<rparr>]"
    and n: "notified s = []"
    unfolding s_def by (simp_all add: ev_defs engine_defs demo_defs Let_def)
  have f: "fcs badFrame \<noteq> csum badFrame"
    by (simp add: badFrame_def)
  have "parseMtIncomingData 1 demoEnv badFrame s =
          (s\<lparr> notified := [(7, ''data'', frame_val badFrame)] \<rparr>, None)"
    using bad_checksum_only_data_event [of badFrame s 1 demoEnv] f l n by simp
  then show ?thesis using f l unfolding s_def by simp
qed

section \<open>The sweep of the start backlog\<close>

text \<open>
  The local array of \<^verbatim>\<open>_sendSREQ\<close> holds one element, the live array, which is never
  an element of itself: the sweep finds nothing and changes nothing, whatever the state.
\<close>

lemma sweep_new_Array: "sweep d E (new_Array BArray) s = (s, None)"
  by (simp add: new_Array_def)

lemma sendSREQ_tbacklog:
  assumes "zframe argObj = Some p"
  shows "tbacklog (txns (fst (sendSREQ E argObj valObj callback s)) ! length (txns s))
           = new_Array BArray"
  using assms by (simp add: sendSREQ_def Let_def setTimeout_def addListener_def unpi_send_def)

text \<open>
  C3 does not hold of the code. In \<open>trPromoteB\<close>, \<^verbatim>\<open>ZDO:bind\<close> starts when the entry of
  \<^verbatim>\<open>SYS:ping\<close> is in \<^verbatim>\<open>_backlog\<close>. When the reply to \<^verbatim>\<open>ZDO:bind\<close> has arrived and
  the deferred sweep has run, that entry is still in \<^verbatim>\<open>_backlog\<close>, the listener of
  \<^verbatim>\<open>SYS:ping\<close> is still attached, and the only callback called is that of
  \<^verbatim>\<open>ZDO:bind\<close>.
\<close>

theorem sweep_leaves_start_backlog:
  "backlog (run 1 demoEnv trPromoteB opened) = [pingBacklog]
   \<and> backlog (run 1 demoEnv (trPromoteB @ [okB, RunImmediate]) opened) = [pingBacklog]
   \<and> calls (run 1 demoEnv (trPromoteB @ [okB, RunImmediate]) opened)
       = [(SListener 1, JFunction 2, [JNull, JObj [(''status'', JNum 0)]])]
   \<and> listenersOf ''SRSP:SYS:ping'' (run 1 demoEnv (trPromoteB @ [okB, RunImmediate]) opened)
       = [\<lparr> lid = 3, levt = ''SRSP:SYS:ping'', lonce = True, lhandler = HSrsp 0 \<rparr>]
   \<and> immediates (run 1 demoEnv (trPromoteB @ [okB, RunImmediate]) opened) = []"
  unfolding run_append run_trPromoteB
  by (simp add: st_defs ev_defs ev2_defs engine_defs demo_defs Let_def)

section \<open>Promotion and colliding pairs\<close>

text \<open>
  C2, as the claim states it, fails. After \<open>trPromoteB\<close> the first \<^verbatim>\<open>SYS:ping\<close> is
  still outstanding; the reply to \<^verbatim>\<open>ZDO:bind\<close> sets the gate Idle, and a new
  \<^verbatim>\<open>SYS:ping\<close> is then sent at once: two reply listeners, of transactions 0 and 2,
  wait on \<^verbatim>\<open>SRSP:SYS:ping\<close>, and neither callback has been called.
\<close>

theorem same_pair_outstanding_twice:
  "listenersOf ''SRSP:SYS:ping'' (run 1 demoEnv (trPromoteB @ [okB, reqC]) opened)
       = [\<lparr> lid = 3, levt = ''SRSP:SYS:ping'', lonce = True, lhandler = HSrsp 0 \<rparr>,
          \<lparr> lid = 9, levt = ''SRSP:SYS:ping'', lonce = True, lhandler = HSrsp 2 \<rparr>]
   \<and> wire (run 1 demoEnv (trPromoteB @ [okB, reqC]) opened)
       = [(''SREQ'', ''SYS'', 1, []), (''SREQ'', ''ZDO'', 33, []), (''SREQ'', ''SYS'', 1, [])]
   \<and> calls (run 1 demoEnv (trPromoteB @ [okB, reqC]) opened)
       = [(SListener 1, JFunction 2, [JNull, JObj [(''status'', JNum 0)]])]"
  unfolding run_append run_trPromoteB
  by (simp add: st_defs ev_defs engine_defs demo_defs Let_def)

lemma findIndex_first:
  assumes "\<forall>x \<in> set pre. \<not> P x" and "P e"
  shows "findIndex P (pre @ e # post) = Some (length pre)"
  using assms by (induction pre) simp_all

lemma findIndex_none:
  assumes "\<forall>x \<in> set xs. \<not> P x"
  shows "findIndex P xs = None"
  using assms by (induction xs) simp_all

lemma splice1_middle: "splice1 (length pre) (pre @ e # post) = pre @ post"
  by (simp add: splice1_def)

lemma scheduleNextSend_early:
  "scheduleNextSend E True s =
     (case findIndex (\<lambda>x. \<not> collides E (backlog s) x) (txQueue s) of
        None \<Rightarrow> (False, s)
      | Some i \<Rightarrow>
          (True, s\<lparr> txQueue := splice1 i (txQueue s),
                    immediates := immediates s @ [KTxDeQueue (txQueue s ! i)] \<rparr>))"
  by (cases "txQueue s") (simp_all add: scheduleNextSend_def setImmediate_def split: option.split)

text \<open>
  C2, amended. The early-promotion dequeue returns false and changes nothing when every
  queued entry collides with an entry of the Backlog Set; otherwise it takes the first
  queued entry that collides with none, removes it from the queue and defers it. An
  entry given by names collides when some backlog entry has the same subsystem and
  command names. The ordinary dequeue takes the head of the queue whatever the Backlog
  Set holds (and \<^verbatim>\<open>request\<close> on an Idle gate sends at once, see C7), so that two
  outstanding transactions can share a pair.
\<close>

theorem early_promotion_first_free:
  "((\<forall>e \<in> set (txQueue s). collides E (backlog s) e) \<longrightarrow> scheduleNextSend E True s = (False, s))
   \<and> (txQueue s = pre @ e # post \<and> (\<forall>x \<in> set pre. collides E (backlog s) x)
        \<and> \<not> collides E (backlog s) e
      \<longrightarrow> scheduleNextSend E True s =
            (True, s\<lparr> txQueue := pre @ post, immediates := immediates s @ [KTxDeQueue e] \<rparr>))
   \<and> (txQueue s = e # q
      \<longrightarrow> scheduleNextSend E False s =
            (True, s\<lparr> txQueue := q, immediates := immediates s @ [KTxDeQueue e] \<rparr>))
   \<and> (esubsys e = IStr a \<and> ecmd e = IStr c
      \<longrightarrow> collides E bl e = (\<exists>b \<in> set bl. bsubsys b = a \<and> bcmd b = c))"
proof (intro conjI impI)
  assume "\<forall>e \<in> set (txQueue s). collides E (backlog s) e"
  then have "findIndex (\<lambda>x. \<not> collides E (backlog s) x) (txQueue s) = None"
    by (intro findIndex_none) simp
  then show "scheduleNextSend E True s = (False, s)"
    by (simp add: scheduleNextSend_early)
next
  assume a: "txQueue s = pre @ e # post \<and> (\<forall>x \<in> set pre. collides E (backlog s) x)
        \<and> \<not> collides E (backlog s) e"
  then have "findIndex (\<lambda>x. \<not> collides E (backlog s) x) (pre @ e # post) = Some (length pre)"
    by (intro findIndex_first) simp_all
  then show "scheduleNextSend E True s =
            (True, s\<lparr> txQueue := pre @ post, immediates := immediates s @ [KTxDeQueue e] \<rparr>)"
    using a by (simp add: scheduleNextSend_early splice1_middle)
next
  assume "txQueue s = e # q"
  then show "scheduleNextSend E False s =
            (True, s\<lparr> txQueue := q, immediates := immediates s @ [KTxDeQueue e] \<rparr>)"
    by (simp add: scheduleNextSend_def setImmediate_def)
next
  assume "esubsys e = IStr a \<and> ecmd e = IStr c"
  then show "collides E bl e = (\<exists>b \<in> set bl. bsubsys b = a \<and> bcmd b = c)"
    by (simp add: collides_def list_ex_iff)
qed

text \<open>
  With the entry of \<^verbatim>\<open>SYS:ping\<close> in the Backlog Set and a queue that holds a
  \<^verbatim>\<open>SYS:ping\<close> before a \<^verbatim>\<open>ZDO:bind\<close>, the promotion passes over the first and takes
  the second; with the \<^verbatim>\<open>SYS:ping\<close> alone in the queue it takes nothing.
\<close>

theorem early_promotion_first_free_witness:
  "collides demoEnv [pingBacklog] pingEntry3 \<and> \<not> collides demoEnv [pingBacklog] bindEntry
   \<and> scheduleNextSend demoEnv True (opened\<lparr> txQueue := [pingEntry3, bindEntry], backlog := [pingBacklog] \<rparr>)
       = (True, opened\<lparr> txQueue := [pingEntry3], backlog := [pingBacklog],
                         immediates := [KTxDeQueue bindEntry] \<rparr>)
   \<and> scheduleNextSend demoEnv True (opened\<lparr> txQueue := [pingEntry3], backlog := [pingBacklog] \<rparr>)
       = (False, opened\<lparr> txQueue := [pingEntry3], backlog := [pingBacklog] \<rparr>)
   \<and> scheduleNextSend demoEnv False (opened\<lparr> txQueue := [pingEntry3], backlog := [pingBacklog] \<rparr>)
       = (True, opened\<lparr> txQueue := [], backlog := [pingBacklog],
                         immediates := [KTxDeQueue pingEntry3] \<rparr>)"
proof -
  have c: "collides demoEnv [pingBacklog] pingEntry3" "\<not> collides demoEnv [pingBacklog] bindEntry"
    using early_promotion_first_free [of _ demoEnv _ pingEntry3 _ _ "''SYS''" "''ping''" "[pingBacklog]"]
      early_promotion_first_free [of _ demoEnv _ bindEntry _ _ "''ZDO''" "''bind''" "[pingBacklog]"]
    by (simp_all add: ev2_defs)
  show ?thesis
    using c
      early_promotion_first_free [of "opened\<lparr> txQueue := [pingEntry3, bindEntry], backlog := [pingBacklog] \<rparr>"
        demoEnv "[pingEntry3]" bindEntry "[]"]
      early_promotion_first_free [of "opened\<lparr> txQueue := [pingEntry3], backlog := [pingBacklog] \<rparr>"
        demoEnv _ pingEntry3 _ "[]"]
    by (simp add: opened_def CcZnp_def)
qed

section \<open>The reset command\<close>




section \<open>Closing\<close>

lemma is_fun_iff: "is_fun v \<longleftrightarrow> (\<exists>f. v = JFunction f)"
  by (cases v) (simp_all add: is_fun_def)

lemma run_Cons: "run d E (x # xs) s = run d E xs (step d E x s)"
  by (simp add: run_def)

lemma run_Nil: "run d E [] s = s"
  by (simp add: run_def)

text \<open>
  The first \<^verbatim>\<open>_close\<close> on an open port starts the close of the port; every \<^verbatim>\<open>_close\<close>
  that runs while the port is closing calls its callback at once.
\<close>

lemma close_inner_starts:
  assumes "sp s = Some p" and "isOpen p" and "closeCbs s = []"
  shows "close_inner (JFunction f) s =
           (s\<lparr> closeCbs := [JFunction f], sp := Some (p\<lparr> isOpen := False \<rparr>),
               spLog := spLog s @ [SpClose], closeWait := Suc (closeWait s) \<rparr>, None)"
  using assms by (simp add: close_inner_def)

lemma close_inner_closing:
  assumes "sp s = Some p" and "\<not> isOpen p"
  shows "close_inner (JFunction f) s = (s\<lparr> calls := calls s @ [(SClose, JFunction f, [JNull])] \<rparr>, None)"
  using assms by (simp add: close_inner_def)

text \<open>
  C8 does not hold of the code. \<^verbatim>\<open>close\<close> is called three times on an open port, with
  the callbacks 1, 2 and 3, and the three flushes complete. The first \<^verbatim>\<open>_close\<close>
  starts the close of the port, once. The second and the third find the port not open,
  since it is closing, and call their callbacks at once with \<^verbatim>\<open>null\<close>: callbacks 2 and
  3 have been called while the close is still under way and callback 1 alone waits in
  \<^verbatim>\<open>closeCbs\<close>. When the close completes, callback 1 is called. The port is asked to
  close once and every callback is called once, but only the first on the completion.
\<close>

theorem close_callbacks_before_completion:
  "closes (spLog (run 1 demoEnv
      [Close (JFunction 1), Close (JFunction 2), Close (JFunction 3), FlushDone, FlushDone, FlushDone]
      opened)) = 1
   \<and> closeWait (run 1 demoEnv
      [Close (JFunction 1), Close (JFunction 2), Close (JFunction 3), FlushDone, FlushDone, FlushDone]
      opened) = 1
   \<and> sp (run 1 demoEnv
      [Close (JFunction 1), Close (JFunction 2), Close (JFunction 3), FlushDone, FlushDone, FlushDone]
      opened) = Some \<lparr> isOpen = False, errClosing = False \<rparr>
   \<and> closeCbs (run 1 demoEnv
      [Close (JFunction 1), Close (JFunction 2), Close (JFunction 3), FlushDone, FlushDone, FlushDone]
      opened) = [JFunction 1]
   \<and> calls (run 1 demoEnv
      [Close (JFunction 1), Close (JFunction 2), Close (JFunction 3), FlushDone, FlushDone, FlushDone]
      opened) = [(SClose, JFunction 2, [JNull]), (SClose, JFunction 3, [JNull])]
   \<and> calls (run 1 demoEnv
      [Close (JFunction 1), Close (JFunction 2), Close (JFunction 3), FlushDone, FlushDone, FlushDone,
       CloseDone JNull] opened)
       = [(SClose, JFunction 2, [JNull]), (SClose, JFunction 3, [JNull]), (SClose, JFunction 1, [JNull])]
   \<and> closes (spLog (run 1 demoEnv
      [Close (JFunction 1), Close (JFunction 2), Close (JFunction 3), FlushDone, FlushDone, FlushDone,
       CloseDone JNull] opened)) = 1"
  by (simp add: engine_defs closes_def Let_def)

section \<open>Single settlement\<close>

lemma pending_iff: "pending tid s \<longleftrightarrow> (\<exists>l \<in> set (listeners s). lhandler l = HSrsp tid)"
  by (simp add: pending_def list_ex_iff)

lemma rel_refl: "rel s s"
  by (simp add: rel_def)

lemma rel_pending: "rel s s' \<Longrightarrow> pending tid s' \<Longrightarrow> pending tid s"
  by (auto simp: rel_def pending_iff)

lemma rel_settles:
  assumes "rel s s'"
  shows "settles tid s \<le> settles tid s'"
    and "settles tid s' \<le> settles tid s + (if pending tid s \<and> \<not> pending tid s' then 1 else 0)"
  using assms by (simp_all add: rel_def)

lemma rel_trans:
  assumes "rel s s'" and "rel s' s''"
  shows "rel s s''"
proof -
  have sub: "set (listeners s'') \<subseteq> set (listeners s)"
    using assms by (auto simp: rel_def)
  have eq: "nextId s'' = nextId s" "length (txns s'') = length (txns s)"
    "\<forall>i. srspEvt (txns s'' ! i) = srspEvt (txns s ! i) \<and> tcallback (txns s'' ! i) = tcallback (txns s ! i)"
    using assms by (simp_all add: rel_def)
  have "settles tid s \<le> settles tid s'' \<and>
        settles tid s'' \<le> settles tid s + (if pending tid s \<and> \<not> pending tid s'' then 1 else 0)" for tid
  proof -
    note a = rel_settles [OF assms(1), of tid] and b = rel_settles [OF assms(2), of tid]
    have c: "pending tid s' \<Longrightarrow> pending tid s" "pending tid s'' \<Longrightarrow> pending tid s'"
      using assms by (auto dest: rel_pending)
    show ?thesis
    proof (cases "pending tid s'")
      case True
      then show ?thesis using a b c by (simp split: if_splits)
    next
      case False
      then show ?thesis using a b c by (auto split: if_splits)
    qed
  qed
  then show ?thesis using sub eq unfolding rel_def by blast
qed

lemma wfz_pending:
  assumes "wfz s" and "pending tid s"
  shows "settles tid s = 0" and "tid < length (txns s)"
  using assms by (auto simp: wfz_def table_ok_def pending_iff)

lemma wfz_rel:
  assumes "wfz s" and "rel s s'"
  shows "wfz s'"
proof -
  have sub: "set (listeners s') \<subseteq> set (listeners s)" and nid: "nextId s' = nextId s"
    and len: "length (txns s') = length (txns s)"
    and ev: "\<And>i. srspEvt (txns s' ! i) = srspEvt (txns s ! i)"
    using assms(2) by (simp_all add: rel_def)
  note cnt = rel_settles(2) [OF assms(2)]
  have z: "settles tid s' = 0" if "pending tid s'" for tid
  proof -
    have "pending tid s" using assms(2) that by (rule rel_pending)
    then have "settles tid s = 0" using wfz_pending(1) [OF assms(1)] by simp
    then show ?thesis using cnt [of tid] that by simp
  qed
  have c: "counts_ok s'"
    unfolding counts_ok_def
  proof (intro allI conjI impI)
    fix tid
    have le: "settles tid s \<le> 1" using assms(1) by (simp add: wfz_def counts_ok_def)
    show "settles tid s' \<le> 1"
    proof (cases "pending tid s")
      case True
      then show ?thesis using cnt [of tid] wfz_pending(1) [OF assms(1) True] by (simp split: if_splits)
    next
      case False
      then show ?thesis using cnt [of tid] le by simp
    qed
    assume b: "length (txns s') \<le> tid"
    have "\<not> pending tid s" using wfz_pending(2) [OF assms(1), of tid] b len by auto
    moreover have "settles tid s = 0" using assms(1) b len by (simp add: wfz_def counts_ok_def)
    ultimately show "settles tid s' = 0" using cnt [of tid] by simp
  qed
  have t: "table_ok s'"
    unfolding table_ok_def
  proof (intro ballI conjI allI impI)
    fix l tid
    assume l: "l \<in> set (listeners s')"
    then have l0: "l \<in> set (listeners s)" using sub by auto
    have t0: "table_ok s" using assms(1) by (simp add: wfz_def)
    show "lid l < nextId s'" using t0 l0 nid by (simp add: table_ok_def)
    assume h: "lhandler l = HSrsp tid"
    have f: "lonce l \<and> tid < length (txns s) \<and> levt l = srspEvt (txns s ! tid)"
      using t0 l0 h by (simp add: table_ok_def)
    show "lonce l" using f by simp
    show "tid < length (txns s')" using f len by simp
    show "levt l = srspEvt (txns s' ! tid)" using f ev by simp
    show "settles tid s' = 0" using z [of tid] l h by (auto simp: pending_iff)
  qed
  have i0: "ids_ok s" using assms(1) by (simp add: wfz_def)
  have i: "ids_ok s'"
    unfolding ids_ok_def
  proof (intro ballI impI)
    fix l m
    assume "l \<in> set (listeners s')" "m \<in> set (listeners s')"
      and e: "lid l = lid m \<or> (\<exists>tid. lhandler l = HSrsp tid \<and> lhandler m = HSrsp tid)"
    then have "l \<in> set (listeners s)" "m \<in> set (listeners s)" using sub by auto
    then show "l = m" using i0 e unfolding ids_ok_def by blast
  qed
  show ?thesis using t i c by (simp add: wfz_def)
qed

lemma same_refl: "same s s"
  by (simp add: same_def)

lemma same_rel: "same s s' \<Longrightarrow> rel s s'"
  by (simp add: same_def rel_def settles_def pending_def)

lemma upd_txn_nth:
  assumes "\<And>t. P (f t) = P t"
  shows "P (txns (upd_txn tid f s) ! i) = P (txns s ! i)"
proof (cases "tid < length (txns s)")
  case True
  then show ?thesis using assms by (cases "i = tid") (simp_all add: upd_txn_def)
next
  case False
  then show ?thesis by (simp add: upd_txn_def list_update_beyond)
qed

lemma same_upd_txn:
  assumes "same s x" and "\<And>t. srspEvt (f t) = srspEvt t" and "\<And>t. tcallback (f t) = tcallback t"
  shows "same s (upd_txn tid f x)"
proof -
  have "srspEvt (txns (upd_txn tid f x) ! i) = srspEvt (txns x ! i)"
    "tcallback (txns (upd_txn tid f x) ! i) = tcallback (txns x ! i)" for i
    using assms(2,3) by (simp_all add: upd_txn_nth [where P = srspEvt] upd_txn_nth [where P = tcallback])
  moreover have "listeners (upd_txn tid f x) = listeners x" "nextId (upd_txn tid f x) = nextId x"
    "calls (upd_txn tid f x) = calls x" "length (txns (upd_txn tid f x)) = length (txns x)"
    by (simp_all add: upd_txn_def)
  ultimately show ?thesis using assms(1) by (simp add: same_def)
qed

lemma same_intros:
  "same s s"
  "same s x \<Longrightarrow> same s (upd_txn tid (\<lambda>t. t\<lparr> sreqTimeout := a \<rparr>) x)"
  "same s x \<Longrightarrow> same s (upd_txn tid (\<lambda>t. t\<lparr> sreqNextQueue := b \<rparr>) x)"
  "same s x \<Longrightarrow> same s (upd_txn tid (\<lambda>t. t\<lparr> ownEvent := c \<rparr>) x)"
  "same s x \<Longrightarrow> same s (clearTimeout h x)"
  "same s x \<Longrightarrow> same s (setImmediate k x)"
  "same s x \<Longrightarrow> same s (snd (scheduleNextSend E e x))"
  "same s x \<Longrightarrow> same s (x\<lparr> spinLock := v1 \<rparr>)"
  "same s x \<Longrightarrow> same s (x\<lparr> backlog := v2 \<rparr>)"
  "same s x \<Longrightarrow> same s (x\<lparr> resetting := v3 \<rparr>)"
  "same s x \<Longrightarrow> same s (x\<lparr> immediates := v4 \<rparr>)"
  "same s x \<Longrightarrow> same s (x\<lparr> timers := v5 \<rparr>)"
  "same s x \<Longrightarrow> same s (x\<lparr> txQueue := v6 \<rparr>)"
  "same s x \<Longrightarrow> same s (x\<lparr> now := v7 \<rparr>)"
  "same s x \<Longrightarrow> same s (x\<lparr> flushQ := v8 \<rparr>)"
  "same s x \<Longrightarrow> same s (x\<lparr> closeCbs := v9 \<rparr>)"
  "same s x \<Longrightarrow> same s (x\<lparr> closeWait := v10 \<rparr>)"
  "same s x \<Longrightarrow> same s (x\<lparr> spLog := v11 \<rparr>)"
  "same s x \<Longrightarrow> same s (x\<lparr> sp := v12 \<rparr>)"
  "same s x \<Longrightarrow> same s (x\<lparr> init := v13 \<rparr>)"
  "same s x \<Longrightarrow> same s (x\<lparr> notified := v14 \<rparr>)"
  "same s x \<Longrightarrow> same s (x\<lparr> thrown := v15 \<rparr>)"
  "same s x \<Longrightarrow> same s (x\<lparr> wire := v16 \<rparr>)"
  "same s x \<Longrightarrow> same s (unpi_send t1 t2 t3 t4 x)"
  by (simp_all add: same_upd_txn)
     (simp_all add: same_def clearTimeout_def setImmediate_def scheduleNextSend_def unpi_send_def
        split: list.split option.split)

lemma same_case_option:
  "same s a \<Longrightarrow> (\<And>h. same s (b h)) \<Longrightarrow> same s (case x of None \<Rightarrow> a | Some h \<Rightarrow> b h)"
  by (cases x) simp_all

lemma same_if: "same s a \<Longrightarrow> same s b \<Longrightarrow> same s (if c then a else b)"
  by simp

lemma srsp_listener_shape:
  assumes "tid < length (txns s)"
  shows "\<exists>s6 args. srsp_listener E tid r s = invoke (SListener tid) (tcallback (txns s ! tid)) args s6
           \<and> same s s6"
proof -
  have ne: "(JStr ''__error__'' = JStr ''__timeout__'') = False"
    by simp
  consider "r = JStr ''__timeout__''" | "r \<noteq> JStr ''__timeout__''" "r = JStr ''__error__''"
    | "r \<noteq> JStr ''__timeout__''" "r \<noteq> JStr ''__error__''"
    by blast
  then show ?thesis
  proof cases
    case 1
    show ?thesis unfolding srsp_listener_def Let_def
      apply (simp only: assms 1 if_True if_False simp_thms)
      apply (rule exI, rule exI, rule conjI, rule refl)
      apply (intro same_intros same_case_option same_if)
      done
  next
    case 2
    show ?thesis unfolding srsp_listener_def Let_def
      apply (simp only: assms 2 ne if_True if_False simp_thms)
      apply (rule exI, rule exI, rule conjI, rule refl)
      apply (intro same_intros same_case_option same_if)
      done
  next
    case 3
    show ?thesis unfolding srsp_listener_def Let_def
      apply (simp only: assms 3 if_True if_False simp_thms)
      apply (rule exI, rule exI, rule conjI, rule refl)
      apply (intro same_intros same_case_option same_if)
      done
  qed
qed

lemma invoke_proj [simp]:
  "listeners (fst (invoke st f args s)) = listeners s"
  "nextId (fst (invoke st f args s)) = nextId s"
  "txns (fst (invoke st f args s)) = txns s"
  by (simp_all add: invoke_def split: jsval.split)

lemma invoke_calls:
  "calls (fst (invoke st f args s)) = calls s @ (if is_fun f then [(st, f, args)] else [])"
  by (simp add: invoke_def is_fun_def split: jsval.split)

lemma invoke_settles:
  "settles tid (fst (invoke st f args s)) = settles tid s + (if st = SListener tid \<and> is_fun f then 1 else 0)"
  by (simp add: settles_def invoke_calls)

lemma rel_quiet:
  assumes "set (listeners s') \<subseteq> set (listeners s)" and "nextId s' = nextId s"
    and "length (txns s') = length (txns s)"
    and "\<And>i. srspEvt (txns s' ! i) = srspEvt (txns s ! i)"
    and "\<And>i. tcallback (txns s' ! i) = tcallback (txns s ! i)"
    and "\<And>tid. settles tid s' = settles tid s"
  shows "rel s s'"
  using assms by (simp add: rel_def)

lemma remove_rel: "rel s (removeListener i s)"
  by (rule rel_quiet) (auto simp: removeListener_def settles_def)

lemma invoke_rel:
  assumes "\<And>tid. st \<noteq> SListener tid"
  shows "rel s (fst (invoke st f args s))"
  by (rule rel_quiet) (simp_all add: invoke_settles assms)

lemma same_settles: "same s s' \<Longrightarrow> settles tid s' = settles tid s"
  by (simp add: same_def settles_def)

lemma settle_rel:
  assumes "wfz s" and "l \<in> set (listeners s)" and "lhandler l = HSrsp tid"
  shows "rel s (fst (srsp_listener E tid r (removeListener (lid l) s)))"
proof -
  let ?s1 = "removeListener (lid l) s"
  have t: "tid < length (txns s)"
    using assms by (auto simp: wfz_def table_ok_def)
  then have "tid < length (txns ?s1)" by (simp add: removeListener_def)
  then obtain s6 args where
    eq: "srsp_listener E tid r ?s1 = invoke (SListener tid) (tcallback (txns ?s1 ! tid)) args s6"
    and sm: "same ?s1 s6"
    using srsp_listener_shape by blast
  let ?s2 = "fst (srsp_listener E tid r ?s1)"
  have ls: "listeners ?s2 = filter (\<lambda>m. lid m \<noteq> lid l) (listeners s)"
    unfolding eq using sm by (simp add: same_def removeListener_def)
  have np: "\<not> pending tid ?s2"
  proof
    assume "pending tid ?s2"
    then obtain m where m: "m \<in> set (listeners s)" "lid m \<noteq> lid l" "lhandler m = HSrsp tid"
      using ls by (auto simp: pending_iff)
    have "ids_ok s" using assms(1) by (simp add: wfz_def)
    then have "m = l" using m assms(2,3) unfolding ids_ok_def by blast
    then show False using m by simp
  qed
  have p: "pending tid s"
    using assms(2,3) by (auto simp: pending_iff)
  have st: "settles k ?s2 = settles k s + (if k = tid \<and> is_fun (tcallback (txns ?s1 ! tid)) then 1 else 0)" for k
  proof -
    have "settles k ?s2 = settles k s6 + (if k = tid \<and> is_fun (tcallback (txns ?s1 ! tid)) then 1 else 0)"
      unfolding eq by (auto simp: invoke_settles)
    moreover have "settles k s6 = settles k ?s1" using sm by (rule same_settles)
    moreover have "settles k ?s1 = settles k s" by (simp add: settles_def removeListener_def)
    ultimately show ?thesis by simp
  qed
  have q: "pending k s \<and> \<not> pending k ?s2" if "k = tid" for k
    using that p np by simp
  show ?thesis
    unfolding rel_def
  proof (intro conjI allI)
    show "set (listeners ?s2) \<subseteq> set (listeners s)" using ls by auto
    show "nextId ?s2 = nextId s" unfolding eq using sm by (simp add: same_def removeListener_def)
    show "length (txns ?s2) = length (txns s)" unfolding eq using sm by (simp add: same_def removeListener_def)
    show "srspEvt (txns ?s2 ! i) = srspEvt (txns s ! i)" for i
      unfolding eq using sm by (simp add: same_def removeListener_def)
    show "tcallback (txns ?s2 ! i) = tcallback (txns s ! i)" for i
      unfolding eq using sm by (simp add: same_def removeListener_def)
    show "settles k s \<le> settles k ?s2" for k using st [of k] by simp
    show "settles k ?s2 \<le> settles k s + (if pending k s \<and> \<not> pending k ?s2 then 1 else 0)" for k
      using st [of k] q [of k] by (cases "k = tid") simp_all
  qed
qed

lemma snap_rel: "snap ls s \<Longrightarrow> rel s s' \<Longrightarrow> snap ls s'"
  unfolding snap_def rel_def by blast

lemma snap_tl: "snap (l # ls) s \<Longrightarrow> snap ls s"
  by (simp add: snap_def)

lemma snap_wfz: "wfz s \<Longrightarrow> snap (listenersOf evt s) s"
  unfolding snap_def wfz_def table_ok_def ids_ok_def listenersOf_def by auto

lemma registered_iff: "registered i s \<longleftrightarrow> (\<exists>m \<in> set (listeners s). lid m = i)"
  by (simp add: registered_def list_ex_iff)

lemma run_handler_rel:
  assumes "wfz s" and "lonce l \<longrightarrow> l \<in> set (listeners s)"
    and "\<forall>tid. lhandler l = HSrsp tid \<longrightarrow> lonce l"
    and nested: "\<And>evt arg x. wfz x \<Longrightarrow> rel x (fst (nested evt arg x))"
  shows "rel s (fst (run_handler nested E l arg (if lonce l then removeListener (lid l) s else s)))"
proof -
  define s1 where "s1 = (if lonce l then removeListener (lid l) s else s)"
  have r1: "rel s s1" by (simp add: s1_def remove_rel rel_refl)
  have w1: "wfz s1" using assms(1) r1 by (rule wfz_rel)
  have "rel s (fst (run_handler nested E l arg s1))"
  proof (cases "lhandler l")
    case HResError
    have "rel s1 (fst (run_handler nested E l arg s1))"
    proof (cases "res_error_target E arg")
      case None
      then show ?thesis using HResError by (simp add: run_handler_def rel_refl)
    next
      case (Some evt)
      show ?thesis
      proof (cases "listenerCount evt s1 = 0")
        case True
        then show ?thesis using HResError Some by (simp add: run_handler_def rel_refl)
      next
        case False
        then show ?thesis using HResError Some nested [OF w1] by (simp add: run_handler_def)
      qed
    qed
    then show ?thesis using r1 rel_trans by blast
  next
    case (HSrsp tid)
    then have "lonce l" "l \<in> set (listeners s)" using assms(2,3) by simp_all
    then show ?thesis using settle_rel [OF assms(1) _ HSrsp] HSrsp by (simp add: run_handler_def s1_def)
  next
    case (HReset cb)
    have a: "rel s1 (s1\<lparr> resetting := False, spinLock := False \<rparr>)"
      by (intro same_rel same_intros)
    have b: "rel (s1\<lparr> resetting := False, spinLock := False \<rparr>)
               (fst (invoke SReset cb [JNull] (s1\<lparr> resetting := False, spinLock := False \<rparr>)))"
      by (rule invoke_rel) simp
    have "rel s1 (fst (run_handler nested E l arg s1))"
      using HReset rel_trans [OF a b] by (simp add: run_handler_def reset_listener_def)
    then show ?thesis using r1 rel_trans by blast
  next
    case (HUser n)
    have "rel s1 (s1\<lparr> notified := notified s1 @ [(n, levt l, arg)] \<rparr>)"
      by (intro same_rel same_intros)
    then have "rel s1 (fst (run_handler nested E l arg s1))"
      using HUser by (simp add: run_handler_def)
    then show ?thesis using r1 rel_trans by blast
  qed
  then show ?thesis unfolding s1_def .
qed

lemma run_ls_rel:
  assumes nested: "\<And>evt arg x. wfz x \<Longrightarrow> rel x (fst (nested evt arg x))"
    and "wfz s" and "snap ls s"
  shows "rel s (fst (run_ls nested E ls arg s))"
  using assms(2,3)
proof (induction ls arbitrary: s)
  case Nil
  then show ?case by (simp add: rel_refl)
next
  case (Cons l ls)
  have sn: "snap ls s" using Cons.prems(2) by (rule snap_tl)
  show ?case
  proof (cases "lonce l \<and> \<not> registered (lid l) s")
    case True
    then show ?thesis using Cons.IH [OF Cons.prems(1) sn] by simp
  next
    case False
    let ?r = "run_handler nested E l arg (if lonce l then removeListener (lid l) s else s)"
    have mem: "lonce l \<longrightarrow> l \<in> set (listeners s)"
      using False Cons.prems(2) by (auto simp: registered_iff snap_def)
    have hs: "\<forall>tid. lhandler l = HSrsp tid \<longrightarrow> lonce l"
      using Cons.prems(2) by (simp add: snap_def)
    have r: "rel s (fst ?r)"
      using run_handler_rel [OF Cons.prems(1) mem hs nested] by simp
    have eq: "run_ls nested E (l # ls) arg s =
        (case ?r of (s', Some ex) \<Rightarrow> (s', Some ex) | (s', None) \<Rightarrow> run_ls nested E ls arg s')"
      using False by (simp only: run_ls.simps if_False)
    obtain s2 x where p: "?r = (s2, x)" by (cases ?r)
    have r2: "rel s s2" using r p by simp
    show ?thesis
    proof (cases x)
      case None
      have "rel s2 (fst (run_ls nested E ls arg s2))"
        using Cons.IH [OF wfz_rel [OF Cons.prems(1) r2] snap_rel [OF sn r2]] .
      then have "rel s (fst (run_ls nested E ls arg s2))"
        using r2 rel_trans by blast
      then show ?thesis unfolding eq p using None by simp
    next
      case (Some ex)
      then show ?thesis unfolding eq p using r2 by simp
    qed
  qed
qed

lemma emit_rel: "wfz s \<Longrightarrow> rel s (fst (emit d E evt arg s))"
proof (induction d arbitrary: s evt arg)
  case 0
  show ?case using run_ls_rel [of "\<lambda>evt' arg' s'. (s', None)" s "listenersOf evt s" E arg] 0
    by (simp add: rel_refl snap_wfz)
next
  case (Suc d)
  show ?case using run_ls_rel [of "emit d E" s "listenersOf evt s" E arg] Suc
    by (simp add: snap_wfz)
qed

lemma rel_emit_if:
  "wfz s \<Longrightarrow> rel s (fst (if c then emit d E evt arg s else (s, None)))"
  by (simp add: emit_rel rel_refl)

lemma mtIncomingDataHdlr_rel:
  assumes "wfz s"
  shows "rel s (fst (mtIncomingDataHdlr d E err ty subsys cmd result s))"
proof -
  consider "truthy err" | "\<not> truthy err" "ty = JStr ''SRSP''"
    | "\<not> truthy err" "ty \<noteq> JStr ''SRSP''" "ty = JStr ''AREQ''"
    | "\<not> truthy err" "ty \<noteq> JStr ''SRSP''" "ty \<noteq> JStr ''AREQ''"
    by blast
  then show ?thesis
  proof cases
    case 1
    then show ?thesis by (simp add: mtIncomingDataHdlr_def rel_refl)
  next
    case 2
    then show ?thesis using assms
      by (simp add: mtIncomingDataHdlr_def rel_refl emit_rel split: jsval.split option.split)
  next
    case 3
    obtain s1 x where e: "emit d E ''AREQ'' (JObj [(''subsys'', subsys), (''ind'', cmd), (''data'', result)]) s = (s1, x)"
      by (cases "emit d E ''AREQ'' (JObj [(''subsys'', subsys), (''ind'', cmd), (''data'', result)]) s")
    have r1: "rel s s1"
      using emit_rel [OF assms, of d E "''AREQ''" "JObj [(''subsys'', subsys), (''ind'', cmd), (''data'', result)]"]
      unfolding e by simp
    have w1: "wfz s1" using assms r1 by (rule wfz_rel)
    have r2: "rel s (fst (emit d E ''AREQ:SYS:RESET'' result s1))"
      using rel_trans [OF r1 emit_rel [OF w1]] .
    show ?thesis using 3 e r1 r2
      by (simp add: mtIncomingDataHdlr_def rel_refl split: option.split)
  next
    case 4
    then show ?thesis by (simp add: mtIncomingDataHdlr_def rel_refl)
  qed
qed

lemma rel_then:
  assumes "wfz s" and "rel s s1" and "\<And>x. wfz x \<Longrightarrow> rel x (f x)"
  shows "rel s (f s1)"
  using assms rel_trans wfz_rel by blast

lemma parseMtIncomingData_rel:
  assumes "wfz s"
  shows "rel s (fst (parseMtIncomingData d E data s))"
proof -
  obtain s1 x where e: "emit d E ''data'' (frame_val data) s = (s1, x)"
    by (cases "emit d E ''data'' (frame_val data) s")
  have r1: "rel s s1"
    using emit_rel [OF assms, of d E "''data''" "frame_val data"] unfolding e by simp
  have w1: "wfz s1" using assms r1 by (rule wfz_rel)
  have h: "rel s (fst (mtIncomingDataHdlr d E a b c f g s1))" for a b c f g
    using rel_trans [OF r1 mtIncomingDataHdlr_rel [OF w1]] .
  show ?thesis
  proof (cases x)
    case (Some ex)
    then show ?thesis using e r1 by (simp add: parseMtIncomingData_def)
  next
    case None
    note n = None
    show ?thesis
    proof (cases "fcs data \<noteq> csum data")
      case True
      then show ?thesis unfolding parseMtIncomingData_def e using n h by simp
    next
      case False
      note f = False
      show ?thesis
      proof (cases "ZpiObject E (fsubsys data) (fcmd data) JUndefined")
        case (Inl ex)
        then show ?thesis unfolding parseMtIncomingData_def e using n f h by simp
      next
        case (Inr argObj)
        note z = Inr
        show ?thesis
        proof (cases "cmdTypeKey E (ftype data)")
          case None
          then show ?thesis unfolding parseMtIncomingData_def e using n f z h by simp
        next
          case (Some ty)
          obtain err result where p: "zparse E argObj ty (JNum (len data)) (payload data) = (err, result)"
            by (cases "zparse E argObj ty (JNum (len data)) (payload data)")
          obtain s2 y where m: "mtIncomingDataHdlr d E err (JStr ty) (JStr (zsubsys argObj))
                                  (JStr (zcmd argObj)) result s1 = (s2, y)"
            by (cases "mtIncomingDataHdlr d E err (JStr ty) (JStr (zsubsys argObj))
                                  (JStr (zcmd argObj)) result s1")
          have r2: "rel s s2" using h [of err "JStr ty" "JStr (zsubsys argObj)" "JStr (zcmd argObj)" result]
            unfolding m by simp
          have r3: "rel s (fst (mtIncomingDataHdlr d E a b c f' g s2))" for a b c f' g
            using rel_trans [OF r2 mtIncomingDataHdlr_rel [OF wfz_rel [OF assms r2]]] .
          show ?thesis unfolding parseMtIncomingData_def e using n f z Some p m r2 r3
            by (cases y) simp_all
        qed
      qed
    qed
  qed
qed

lemma sreqTimeout_cb_rel:
  assumes "wfz s"
  shows "rel s (fst (sreqTimeout_cb d E tid s))"
proof (cases "tid < length (txns s)")
  case False
  then show ?thesis by (simp add: sreqTimeout_cb_def rel_refl)
next
  case True
  let ?r = "if listenerCount (srspEvt (txns s ! tid)) s \<noteq> 0
            then emit d E (srspEvt (txns s ! tid)) (JStr ''__timeout__'') s else (s, None)"
  obtain s1 x where e: "?r = (s1, x)" by (cases ?r)
  have r1: "rel s s1"
    using rel_emit_if [OF assms, of "listenerCount (srspEvt (txns s ! tid)) s \<noteq> 0" d E
        "srspEvt (txns s ! tid)" "JStr ''__timeout__''"]
    unfolding e by simp
  have r2: "rel s1 (upd_txn tid (\<lambda>t. t\<lparr> sreqTimeout := None \<rparr>) s1)"
    by (intro same_rel same_intros)
  have "sreqTimeout_cb d E tid s =
      (case ?r of (s', Some ex) \<Rightarrow> (s', Some ex)
       | (s', None) \<Rightarrow> (upd_txn tid (\<lambda>t. t\<lparr> sreqTimeout := None \<rparr>) s', None))"
    using True by (simp add: sreqTimeout_cb_def)
  then show ?thesis
    unfolding e using r1 rel_trans [OF r1 r2] by (cases x) simp_all
qed

lemma same_sched_pair:
  assumes "same s x"
  shows "same s (case scheduleNextSend E b x of (True, s4) \<Rightarrow> s4\<lparr> spinLock := False \<rparr> | (False, s4) \<Rightarrow> s4)"
proof -
  obtain r s4 where p: "scheduleNextSend E b x = (r, s4)" by (cases "scheduleNextSend E b x")
  have "same s (snd (scheduleNextSend E b x))" using assms by (intro same_intros)
  then have "same s s4" unfolding p by simp
  then show ?thesis unfolding p by (cases r) (simp_all add: same_intros)
qed

lemma sreqNextQueue_cb_same: "same s (sreqNextQueue_cb E tid s)"
proof (cases "tid < length (txns s)")
  case False
  then show ?thesis by (simp add: sreqNextQueue_cb_def same_refl)
next
  case True
  show ?thesis
    unfolding sreqNextQueue_cb_def Let_def
    by (simp only: True if_True, intro same_sched_pair same_intros)
qed

lemma resetFailsafe_cb_same: "same s (resetFailsafe_cb s)"
  by (simp add: resetFailsafe_cb_def same_intros)

lemma fire_timer_rel:
  assumes "wfz s"
  shows "rel s (fst (fire_timer d E s))"
proof (cases "earliest (filter (\<lambda>t. due t \<le> now s) (timers s))")
  case None
  then show ?thesis by (simp add: fire_timer_def rel_refl)
next
  case (Some t)
  have c: "rel s (clearTimeout (tmid t) s)" by (intro same_rel same_intros)
  have w: "wfz (clearTimeout (tmid t) s)" using assms c by (rule wfz_rel)
  show ?thesis
  proof (cases "action t")
    case (TSreqTimeout tid)
    then show ?thesis using Some rel_trans [OF c sreqTimeout_cb_rel [OF w]]
      by (simp add: fire_timer_def)
  next
    case (TSreqNextQueue tid)
    then show ?thesis using Some rel_trans [OF c same_rel [OF sreqNextQueue_cb_same]]
      by (simp add: fire_timer_def)
  next
    case TResetFailsafe
    then show ?thesis using Some rel_trans [OF c same_rel [OF resetFailsafe_cb_same]]
      by (simp add: fire_timer_def)
  qed
qed

lemma sweep_rel:
  assumes "wfz s"
  shows "rel s (fst (sweep d E vs s))"
  using assms
proof (induction vs arbitrary: s)
  case Nil
  then show ?case by (simp add: rel_refl)
next
  case (Cons v vs)
  show ?case
  proof (cases "indexOf (backlog s) v")
    case None
    then show ?thesis using Cons by simp
  next
    case (Some pos)
    let ?r = "case v of BEntry be \<Rightarrow>
                 if listenerCount (bevt be) s \<noteq> 0 then emit d E (bevt be) (JStr ''__timeout__'') s
                 else (s, None)
              | BArray \<Rightarrow> (s, None)"
    obtain s1 x where e: "?r = (s1, x)" by (cases ?r)
    have "rel s (fst ?r)" using Cons.prems by (cases v) (simp_all add: rel_refl emit_rel)
    then have r1: "rel s s1" unfolding e by simp
    have r2: "rel s (s1\<lparr> backlog := splice1 pos (backlog s1) \<rparr>)"
      using rel_trans [OF r1] by (intro rel_trans [OF r1] same_rel same_intros)
    have r3: "rel s (fst (sweep d E vs (s1\<lparr> backlog := splice1 pos (backlog s1) \<rparr>)))"
      using rel_trans [OF r2 Cons.IH [OF wfz_rel [OF Cons.prems r2]]] .
    have "sweep d E (v # vs) s =
        (case ?r of (s', Some ex) \<Rightarrow> (s', Some ex)
         | (s', None) \<Rightarrow> sweep d E vs (s'\<lparr> backlog := splice1 pos (backlog s') \<rparr>))"
      using Some by simp
    then show ?thesis unfolding e using r1 r3 by (cases x) simp_all
  qed
qed

lemma close_inner_rel: "rel s (fst (close_inner cb s))"
proof (cases "sp s")
  case None
  then show ?thesis by (simp add: close_inner_def invoke_rel)
next
  case (Some p)
  show ?thesis
  proof (cases "isOpen p")
    case False
    then show ?thesis using Some by (simp add: close_inner_def invoke_rel)
  next
    case True
    then show ?thesis using Some
      by (simp add: close_inner_def Let_def) (intro conjI impI same_rel same_intros)
  qed
qed

lemma call_each_rel: "rel s (fst (call_each fs arg s))"
proof (induction fs arbitrary: s)
  case Nil
  then show ?case by (simp add: rel_refl)
next
  case (Cons f fs)
  obtain s1 x where e: "invoke SClose f [arg] s = (s1, x)" by (cases "invoke SClose f [arg] s")
  have r1: "rel s s1" using invoke_rel [of SClose s f "[arg]"] unfolding e by simp
  show ?case using r1 rel_trans [OF r1 Cons.IH [of s1]] e by (cases x) simp_all
qed

lemma close_cb_rel: "rel s (fst (close_cb arg s))"
proof -
  obtain s1 x where e: "call_each (closeCbs s) arg s = (s1, x)" by (cases "call_each (closeCbs s) arg s")
  have r1: "rel s s1" using call_each_rel [of s "closeCbs s" arg] unfolding e by simp
  have r2: "rel s (s1\<lparr> closeCbs := [] \<rparr>)" by (intro rel_trans [OF r1] same_rel same_intros)
  show ?thesis unfolding close_cb_def e using r1 r2 by (cases x) simp_all
qed

lemma spClose_rel:
  assumes "wfz s"
  shows "rel s (fst (spClose d E s))"
proof -
  have r1: "rel s (s\<lparr> txQueue := [], sp := None, init := False \<rparr>)"
    by (intro same_rel same_intros)
  show ?thesis unfolding spClose_def
    using rel_trans [OF r1 emit_rel [OF wfz_rel [OF assms r1]]] .
qed

lemma close_done_rel:
  assumes "wfz s"
  shows "rel s (fst (close_done d E arg s))"
proof (cases "closeWait s = 0")
  case True
  then show ?thesis by (simp add: close_done_def rel_refl)
next
  case False
  obtain s1 x where e: "spClose d E (s\<lparr> closeWait := closeWait s - 1 \<rparr>) = (s1, x)"
    by (cases "spClose d E (s\<lparr> closeWait := closeWait s - 1 \<rparr>)")
  have r0: "rel s (s\<lparr> closeWait := closeWait s - 1 \<rparr>)" by (intro same_rel same_intros)
  have r1: "rel s s1"
    using rel_trans [OF r0 spClose_rel [OF wfz_rel [OF assms r0], of d E]] unfolding e by simp
  have r2: "rel s (fst (close_cb arg s1))" using rel_trans [OF r1 close_cb_rel] .
  show ?thesis using False e r1 r2 by (cases x) (simp_all add: close_done_def)
qed

lemma flush_done_rel: "rel s (fst (flush_done s))"
proof (cases "flushQ s")
  case Nil
  then show ?thesis by (simp add: flush_done_def rel_refl)
next
  case (Cons cb q)
  have r0: "rel s (s\<lparr> flushQ := q \<rparr>)" by (intro same_rel same_intros)
  show ?thesis using Cons rel_trans [OF r0 close_inner_rel] by (simp add: flush_done_def)
qed

lemma spErr_rel: "rel s (fst (spErr s))"
proof (cases "sp s")
  case None
  then show ?thesis by (simp add: spErr_def rel_refl)
next
  case (Some p)
  have r0: "rel s (s\<lparr> sp := Some (p\<lparr> errClosing := True \<rparr>) \<rparr>)" by (intro same_rel same_intros)
  show ?thesis using Some rel_trans [OF r0 close_inner_rel] by (simp add: spErr_def rel_refl)
qed

lemma close_rel: "rel s (fst (close cb s))"
proof (cases "init s")
  case False
  then show ?thesis by (simp add: close_def invoke_rel)
next
  case True
  then show ?thesis
    by (cases "sp s") (simp_all add: close_def rel_refl, intro same_rel same_intros)
qed

lemma good_rel: "wfz s \<Longrightarrow> rel s s' \<Longrightarrow> good s s'"
  by (simp add: good_def wfz_rel rel_settles(1))

lemma good_trans: "good s s' \<Longrightarrow> good s' s'' \<Longrightarrow> good s s''"
  unfolding good_def by (meson le_trans)

lemma good_add:
  assumes "wfz s"
    and "listeners s' = listeners s @ [l]" and "nextId s \<le> lid l" and "lid l < nextId s'"
    and "calls s' = calls s"
    and "length (txns s) \<le> length (txns s')"
    and "\<And>i. i < length (txns s) \<Longrightarrow> srspEvt (txns s' ! i) = srspEvt (txns s ! i)"
    and "\<And>tid. lhandler l = HSrsp tid \<Longrightarrow>
           lonce l \<and> length (txns s) \<le> tid \<and> tid < length (txns s') \<and> levt l = srspEvt (txns s' ! tid)"
  shows "good s s'"
proof -
  have st: "settles tid s' = settles tid s" for tid
    using assms(5) by (simp add: settles_def)
  have t0: "table_ok s" and i0: "ids_ok s" and c0: "counts_ok s"
    using assms(1) by (simp_all add: wfz_def)
  have c: "counts_ok s'"
    using c0 assms(6) st unfolding counts_ok_def by auto
  have old: "lid m < nextId s \<and>
        (\<forall>tid. lhandler m = HSrsp tid \<longrightarrow>
           lonce m \<and> tid < length (txns s) \<and> levt m = srspEvt (txns s ! tid) \<and> settles tid s = 0)"
    if "m \<in> set (listeners s)" for m
    using t0 that unfolding table_ok_def by blast
  have t: "table_ok s'"
    unfolding table_ok_def
  proof (intro ballI conjI allI impI)
    fix m tid
    assume m: "m \<in> set (listeners s')"
    then consider "m \<in> set (listeners s)" | "m = l" using assms(2) by auto
    note cs = this
    show "lid m < nextId s'" using cs old assms(3,4) by cases force+
    assume h: "lhandler m = HSrsp tid"
    show "lonce m" using cs old assms(8) h by cases auto
    show "tid < length (txns s')" using cs old [of m] assms(6,8) h by cases auto
    show "levt m = srspEvt (txns s' ! tid)" using cs old [of m] assms(7,8) h by cases auto
    show "settles tid s' = 0"
      using cs
    proof cases
      case 1
      then show ?thesis using old h st by auto
    next
      case 2
      then have "length (txns s) \<le> tid" using assms(8) h by auto
      then show ?thesis using c0 st unfolding counts_ok_def by auto
    qed
  qed
  have i: "ids_ok s'"
    unfolding ids_ok_def
  proof (intro ballI impI)
    fix m k
    assume m: "m \<in> set (listeners s')" and k: "k \<in> set (listeners s')"
      and e: "lid m = lid k \<or> (\<exists>tid. lhandler m = HSrsp tid \<and> lhandler k = HSrsp tid)"
    have x: "False" if "a \<in> set (listeners s)"
      and "lid a = lid l \<or> (\<exists>tid. lhandler a = HSrsp tid \<and> lhandler l = HSrsp tid)" for a
      using old [OF that(1)] that(2) assms(3,8) by force
    from m k consider "m \<in> set (listeners s)" "k \<in> set (listeners s)"
      | "m \<in> set (listeners s)" "k = l" | "m = l" "k \<in> set (listeners s)" | "m = l" "k = l"
      using assms(2) by auto
    then show "m = k"
    proof cases
      case 1
      then show ?thesis using i0 e unfolding ids_ok_def by blast
    next
      case 2
      then show ?thesis using x [of m] e by auto
    next
      case 3
      then show ?thesis using x [of k] e by auto
    next
      case 4
      then show ?thesis by simp
    qed
  qed
  show ?thesis using t i c st by (simp add: good_def wfz_def)
qed

lemma sendSREQ_good:
  assumes "wfz s"
  shows "good s (fst (sendSREQ E argObj valObj callback s))"
proof (cases "zframe argObj")
  case None
  then show ?thesis using assms by (simp add: sendSREQ_def good_rel invoke_rel)
next
  case (Some p)
  define s' where "s' = fst (sendSREQ E argObj valObj callback s)"
  define evt where "evt = ''SRSP:'' @ zsubsys argObj @ '':'' @ zcmd argObj"
  define l where "l = \<lparr> lid = Suc (Suc (nextId s)), levt = evt, lonce = True,
                         lhandler = HSrsp (length (txns s)) \<rparr>"
  have a: "listeners s' = listeners s @ [l]" "nextId s' = Suc (Suc (Suc (nextId s)))"
    "calls s' = calls s" "length (txns s') = Suc (length (txns s))"
    "srspEvt (txns s' ! length (txns s)) = evt"
    "\<And>i. i < length (txns s) \<Longrightarrow> txns s' ! i = txns s ! i"
    using Some
    by (simp_all add: s'_def l_def evt_def sendSREQ_def Let_def setTimeout_def addListener_def
        unpi_send_def nth_append)
  show ?thesis
    unfolding s'_def [symmetric]
    by (rule good_add [OF assms a(1)]) (simp_all add: a l_def)
qed

lemma sendAREQ_good:
  assumes "wfz s"
  shows "good s (fst (sendAREQ E argObj callback s))"
proof (cases "zframe argObj")
  case None
  then show ?thesis using assms by (simp add: sendAREQ_def good_rel invoke_rel)
next
  case (Some p)
  show ?thesis
  proof (cases "zcmd argObj = ''resetReq'' \<or> zcmd argObj = ''systemReset''")
    case True
    define s' where "s' = fst (sendAREQ E argObj callback s)"
    define l where "l = \<lparr> lid = nextId s, levt = ''AREQ:SYS:RESET'', lonce = True,
                           lhandler = HReset callback \<rparr>"
    have a: "listeners s' = listeners s @ [l]" "nextId s' = Suc (Suc (nextId s))"
      "calls s' = calls s" "txns s' = txns s"
      using Some True
      by (simp_all add: s'_def l_def sendAREQ_def Let_def setTimeout_def addListener_def unpi_send_def)
    show ?thesis
      unfolding s'_def [symmetric]
      by (rule good_add [OF assms a(1)]) (simp_all add: a l_def)
  next
    case False
    let ?s0 = "snd (scheduleNextSend E False (s\<lparr> spinLock := False \<rparr>))"
    obtain s1 x where e: "invoke SAreq callback [JNull] ?s0 = (s1, x)"
      by (cases "invoke SAreq callback [JNull] ?s0")
    have r0: "rel s ?s0" by (intro same_rel same_intros)
    have r1: "rel s s1" using rel_trans [OF r0 invoke_rel [of SAreq ?s0 callback "[JNull]"]]
      unfolding e by simp
    have r2: "rel s (unpi_send ''AREQ'' (zsubsys argObj) (zcmdId argObj) p s1)"
      by (intro rel_trans [OF r1] same_rel same_intros)
    have "rel s (fst (sendAREQ E argObj callback s))"
      using Some False e r1 r2 by (cases x) (simp_all add: sendAREQ_def)
    then show ?thesis using assms good_rel by blast
  qed
qed

lemma good_refl: "wfz s \<Longrightarrow> good s s"
  by (simp add: good_def)

lemma request_good:
  assumes "wfz s"
  shows "good s (fst (request E subsys cmd valObj callback s))"
proof -
  have q: "good s (s\<lparr> txQueue := v \<rparr>)" for v
    by (intro good_rel assms same_rel same_intros)
  have l: "wfz (s\<lparr> spinLock := True \<rparr>)" "good s (s\<lparr> spinLock := True \<rparr>)"
    using assms by (auto intro!: wfz_rel [OF assms] good_rel same_rel same_intros)
  have a: "good s (fst (sendSREQ E argObj valObj callback (s\<lparr> spinLock := True \<rparr>)))" for argObj
    using good_trans [OF l(2) sendSREQ_good [OF l(1)]] .
  have b: "good s (fst (sendAREQ E argObj callback (s\<lparr> spinLock := True \<rparr>)))" for argObj
    using good_trans [OF l(2) sendAREQ_good [OF l(1)]] .
  show ?thesis
    unfolding request_def
    using good_refl [OF assms] q l a b by (simp split: sum.split)
qed

lemma entry_fn_good:
  assumes "wfz s"
  shows "good s (fst (entry_fn E e s))"
proof -
  obtain s1 x where r: "request E (esubsys e) (ecmd e) (evalObj e) (ecallback e) s = (s1, x)"
    by (cases "request E (esubsys e) (ecmd e) (evalObj e) (ecallback e) s")
  have g: "good s s1" using request_good [OF assms, of E "esubsys e" "ecmd e" "evalObj e" "ecallback e"]
    unfolding r by simp
  have w: "wfz s1" using g by (simp add: good_def)
  have "good s1 (fst (invoke SRetry (ecallback e) [JErr ex] s1))" for ex
    by (intro good_rel w invoke_rel) simp
  then show ?thesis unfolding entry_fn_def r using g good_trans by (cases x) auto
qed

lemma run_immediate_good:
  assumes "wfz s"
  shows "good s (fst (run_immediate d E s))"
proof (cases "immediates s")
  case Nil
  then show ?thesis using assms by (simp add: run_immediate_def good_refl)
next
  case (Cons k ks)
  have r0: "rel s (s\<lparr> immediates := ks \<rparr>)" by (intro same_rel same_intros)
  have w0: "wfz (s\<lparr> immediates := ks \<rparr>)" using assms r0 by (rule wfz_rel)
  have g0: "good s (s\<lparr> immediates := ks \<rparr>)" using assms r0 by (rule good_rel)
  show ?thesis
  proof (cases k)
    case (KSweep tid)
    have "good s (fst (sweep d E vs (s\<lparr> immediates := ks \<rparr>)))" for vs
      using good_rel [OF assms rel_trans [OF r0 sweep_rel [OF w0]]] .
    then show ?thesis using Cons KSweep g0 by (simp add: run_immediate_def)
  next
    case (KTxDeQueue e)
    then show ?thesis using Cons good_trans [OF g0 entry_fn_good [OF w0]]
      by (simp add: run_immediate_def)
  qed
qed

lemma note_exn_good:
  assumes "wfz s" and "good s (fst r)"
  shows "good s (note_exn r)"
proof -
  have w: "wfz (fst r)" using assms(2) by (simp add: good_def)
  have "good (fst r) (fst r\<lparr> thrown := v \<rparr>)" for v
    by (intro good_rel w same_rel same_intros)
  then show ?thesis using assms(2) good_trans unfolding note_exn_def
    by (cases r; cases "snd r") auto
qed

lemma step_good:
  assumes "wfz s"
  shows "good s (step d E ev s)"
proof (cases ev)
  case (Request subsys cmd valObj callback)
  then show ?thesis using note_exn_good [OF assms request_good [OF assms]] by (simp add: step_def)
next
  case (Incoming data)
  then show ?thesis
    using note_exn_good [OF assms good_rel [OF assms parseMtIncomingData_rel [OF assms]]]
    by (simp add: step_def)
next
  case (Advance ms)
  have "good s (s\<lparr> now := now s + ms \<rparr>)" by (intro good_rel assms same_rel same_intros)
  then show ?thesis using Advance by (simp add: step_def)
next
  case FireTimer
  then show ?thesis
    using note_exn_good [OF assms good_rel [OF assms fire_timer_rel [OF assms]]]
    by (simp add: step_def)
next
  case RunImmediate
  then show ?thesis using note_exn_good [OF assms run_immediate_good [OF assms]] by (simp add: step_def)
next
  case (On evt n)
  define s' where "s' = addListener evt False (HUser n) s"
  have a: "listeners s' = listeners s @ [\<lparr> lid = nextId s, levt = evt, lonce = False, lhandler = HUser n \<rparr>]"
    "nextId s' = Suc (nextId s)" "calls s' = calls s" "txns s' = txns s"
    by (simp_all add: s'_def addListener_def)
  have "good s s'"
    by (rule good_add [OF assms a(1)]) (simp_all add: a)
  then show ?thesis using On by (simp add: step_def s'_def)
next
  case (Close callback)
  then show ?thesis using note_exn_good [OF assms good_rel [OF assms close_rel]] by (simp add: step_def)
next
  case FlushDone
  then show ?thesis using note_exn_good [OF assms good_rel [OF assms flush_done_rel]] by (simp add: step_def)
next
  case (CloseDone arg)
  then show ?thesis
    using note_exn_good [OF assms good_rel [OF assms close_done_rel [OF assms]]] by (simp add: step_def)
next
  case SpError
  then show ?thesis using note_exn_good [OF assms good_rel [OF assms spErr_rel]] by (simp add: step_def)
qed

lemma run_good:
  assumes "wfz s"
  shows "good s (run d E evs s)"
  using assms
proof (induction evs arbitrary: s)
  case Nil
  then show ?case by (simp add: run_def good_refl)
next
  case (Cons ev evs)
  have g: "good s (step d E ev s)" using Cons.prems by (rule step_good)
  then have "wfz (step d E ev s)" by (simp add: good_def)
  then have "good (step d E ev s) (run d E evs (step d E ev s))" by (rule Cons.IH)
  then have "good s (run d E evs (step d E ev s))" using g good_trans by blast
  then show ?case by (simp add: run_def)
qed

lemma wfz_opened: "wfz opened"
  by (simp add: wfz_def table_ok_def ids_ok_def counts_ok_def settles_def opened_def CcZnp_def)

lemma wfz_CcZnp: "wfz CcZnp"
  by (simp add: wfz_def table_ok_def ids_ok_def counts_ok_def settles_def CcZnp_def)

lemma cbs_fun_rel: "cbs_fun s \<Longrightarrow> rel s s' \<Longrightarrow> cbs_fun s'"
  unfolding cbs_fun_def rel_def by (metis subsetD)

lemma relx_rel: "relx s s' \<Longrightarrow> rel s s'"
  by (simp add: relx_def)

lemma relx_refl: "relx s s"
  by (simp add: relx_def rel_refl)

lemma relx_keep:
  assumes "rel s s'" and "\<And>tid. pending tid s \<Longrightarrow> pending tid s'"
  shows "relx s s'"
  using assms by (auto simp: relx_def)

lemma relx_same: "same s s' \<Longrightarrow> relx s s'"
  by (rule relx_keep) (simp_all add: same_rel same_def pending_def)

lemma relx_trans:
  assumes "relx s s'" and "relx s' s''"
  shows "relx s s''"
proof -
  have r: "rel s s'" "rel s' s''" using assms by (simp_all add: relx_def)
  have "settles tid s'' = settles tid s + 1" if p: "pending tid s" and n: "\<not> pending tid s''" for tid
  proof (cases "pending tid s'")
    case True
    have "settles tid s' = settles tid s"
      using rel_settles [OF r(1), of tid] True p by simp
    moreover have "settles tid s'' = settles tid s' + 1"
      using assms(2) True n by (simp add: relx_def)
    ultimately show ?thesis by simp
  next
    case False
    have "settles tid s' = settles tid s + 1"
      using assms(1) False p by (simp add: relx_def)
    moreover have "settles tid s'' = settles tid s'"
      using rel_settles [OF r(2), of tid] False by simp
    ultimately show ?thesis by simp
  qed
  then show ?thesis using rel_trans [OF r] by (simp add: relx_def)
qed

lemma invoke_relx:
  assumes "\<And>tid. st \<noteq> SListener tid"
  shows "relx s (fst (invoke st f args s))"
  by (rule relx_keep [OF invoke_rel [OF assms]]) (simp add: pending_def)

lemma settle_relx:
  assumes "wfz s" and "l \<in> set (listeners s)" and "lhandler l = HSrsp tid"
    and "is_fun (tcallback (txns s ! tid))"
  shows "relx s (fst (srsp_listener E tid r (removeListener (lid l) s)))"
    and "snd (srsp_listener E tid r (removeListener (lid l) s)) = None"
proof -
  let ?s1 = "removeListener (lid l) s"
  let ?s2 = "fst (srsp_listener E tid r ?s1)"
  have t: "tid < length (txns ?s1)"
    using assms by (auto simp: wfz_def table_ok_def removeListener_def)
  then obtain s6 args where
    eq: "srsp_listener E tid r ?s1 = invoke (SListener tid) (tcallback (txns ?s1 ! tid)) args s6"
    and sm: "same ?s1 s6"
    using srsp_listener_shape by blast
  have f: "is_fun (tcallback (txns ?s1 ! tid))" using assms(4) by (simp add: removeListener_def)
  show "snd (srsp_listener E tid r ?s1) = None"
    unfolding eq using f by (cases "tcallback (txns ?s1 ! tid)") (simp_all add: is_fun_def)
  have r: "rel s ?s2" using settle_rel [OF assms(1-3)] .
  have ls: "listeners ?s2 = filter (\<lambda>m. lid m \<noteq> lid l) (listeners s)"
    unfolding eq using sm by (simp add: same_def removeListener_def)
  have i0: "ids_ok s" using assms(1) by (simp add: wfz_def)
  have keep: "pending k ?s2" if pk: "pending k s" and ne: "k \<noteq> tid" for k
  proof -
    obtain m where m: "m \<in> set (listeners s)" "lhandler m = HSrsp k"
      using pk by (auto simp: pending_iff)
    have "m \<noteq> l" using m ne assms(3) by auto
    then have "lid m \<noteq> lid l" using i0 m assms(2) unfolding ids_ok_def by blast
    then show ?thesis using m ls by (auto simp: pending_iff)
  qed
  have st: "settles tid ?s2 = settles tid s + 1"
  proof -
    have "settles tid ?s2 = settles tid s6 + 1"
      unfolding eq using f by (simp add: invoke_settles)
    moreover have "settles tid s6 = settles tid ?s1" using sm by (rule same_settles)
    moreover have "settles tid ?s1 = settles tid s" by (simp add: settles_def removeListener_def)
    ultimately show ?thesis by simp
  qed
  show "relx s ?s2"
    unfolding relx_def using r st keep by blast
qed

lemma remove_relx:
  assumes "\<And>tid. lhandler l \<noteq> HSrsp tid" and "l \<in> set (listeners s)" and "wfz s"
  shows "relx s (removeListener (lid l) s)"
proof (rule relx_keep [OF remove_rel])
  fix tid
  assume "pending tid s"
  then obtain m where m: "m \<in> set (listeners s)" "lhandler m = HSrsp tid"
    by (auto simp: pending_iff)
  have i0: "ids_ok s" using assms(3) by (simp add: wfz_def)
  have "m \<noteq> l" using m assms(1) by auto
  then have "lid m \<noteq> lid l" using i0 m assms(2) unfolding ids_ok_def by blast
  then show "pending tid (removeListener (lid l) s)"
    using m by (auto simp: pending_iff removeListener_def)
qed

lemma run_handler_relx:
  assumes "wfz s" and "cbs_fun s" and mem: "lonce l \<longrightarrow> l \<in> set (listeners s)"
    and hs: "\<forall>tid. lhandler l = HSrsp tid \<longrightarrow> lonce l"
    and hr: "\<forall>cb. lhandler l = HReset cb \<longrightarrow> is_fun cb"
    and nested: "\<And>evt arg x. wfz x \<Longrightarrow> cbs_fun x \<Longrightarrow> relx x (fst (nested evt arg x))"
  shows "relx s (fst (run_handler nested E l arg (if lonce l then removeListener (lid l) s else s)))"
    and "snd (run_handler nested E l arg (if lonce l then removeListener (lid l) s else s)) = None"
proof -
  define s1 where "s1 = (if lonce l then removeListener (lid l) s else s)"
  have once: "lonce l" if "lhandler l = HSrsp tid" for tid
    using hs that by simp
  have r1: "relx s s1" if "\<And>tid. lhandler l \<noteq> HSrsp tid"
    using that assms(1) mem by (simp add: s1_def remove_relx relx_refl)
  have rr: "rel s s1" by (simp add: s1_def remove_rel rel_refl)
  have w1: "wfz s1" using assms(1) rr by (rule wfz_rel)
  have c1: "cbs_fun s1" using assms(2) rr by (rule cbs_fun_rel)
  have "relx s (fst (run_handler nested E l arg s1)) \<and> snd (run_handler nested E l arg s1) = None"
  proof (cases "lhandler l")
    case HResError
    have "relx s1 (fst (run_handler nested E l arg s1)) \<and> snd (run_handler nested E l arg s1) = None"
    proof (cases "res_error_target E arg")
      case None
      then show ?thesis using HResError by (simp add: run_handler_def relx_refl)
    next
      case (Some evt)
      show ?thesis
      proof (cases "listenerCount evt s1 = 0")
        case True
        then show ?thesis using HResError Some by (simp add: run_handler_def relx_refl)
      next
        case False
        then show ?thesis using HResError Some nested [OF w1 c1] by (simp add: run_handler_def)
      qed
    qed
    then show ?thesis using r1 HResError relx_trans by fastforce
  next
    case (HSrsp tid)
    have m: "l \<in> set (listeners s)" using mem once [OF HSrsp] by simp
    have f: "is_fun (tcallback (txns s ! tid))" using assms(2) m HSrsp by (auto simp: cbs_fun_def)
    show ?thesis
      using settle_relx [OF assms(1) m HSrsp f] once [OF HSrsp] HSrsp
      by (simp add: run_handler_def s1_def)
  next
    case (HReset cb)
    have f: "is_fun cb" using hr HReset by simp
    have a: "relx s1 (s1\<lparr> resetting := False, spinLock := False \<rparr>)"
      by (intro relx_same same_intros)
    have b: "relx (s1\<lparr> resetting := False, spinLock := False \<rparr>)
               (fst (invoke SReset cb [JNull] (s1\<lparr> resetting := False, spinLock := False \<rparr>)))"
      by (rule invoke_relx) simp
    have n: "snd (invoke SReset cb [JNull] (s1\<lparr> resetting := False, spinLock := False \<rparr>)) = None"
      using f by (cases cb) (simp_all add: is_fun_def)
    have "relx s1 (fst (run_handler nested E l arg s1)) \<and> snd (run_handler nested E l arg s1) = None"
      using HReset relx_trans [OF a b] n by (simp add: run_handler_def reset_listener_def)
    then show ?thesis using r1 HReset relx_trans by fastforce
  next
    case (HUser n)
    have "relx s1 (s1\<lparr> notified := notified s1 @ [(n, levt l, arg)] \<rparr>)"
      by (intro relx_same same_intros)
    then have "relx s1 (fst (run_handler nested E l arg s1)) \<and> snd (run_handler nested E l arg s1) = None"
      using HUser by (simp add: run_handler_def)
    then show ?thesis using r1 HUser relx_trans by fastforce
  qed
  then show "relx s (fst (run_handler nested E l arg (if lonce l then removeListener (lid l) s else s)))"
    and "snd (run_handler nested E l arg (if lonce l then removeListener (lid l) s else s)) = None"
    unfolding s1_def by simp_all
qed

lemma srsp_listener_listeners: "listeners (fst (srsp_listener E tid r x)) = listeners x"
proof (cases "tid < length (txns x)")
  case True
  then obtain s6 args where
    eq: "srsp_listener E tid r x = invoke (SListener tid) (tcallback (txns x ! tid)) args s6"
    and sm: "same x s6"
    using srsp_listener_shape by blast
  show ?thesis unfolding eq using sm by (simp add: same_def)
next
  case False
  then show ?thesis by (simp add: srsp_listener_def)
qed

lemma run_handler_sub:
  assumes "wfz x" and nested: "\<And>evt arg y. wfz y \<Longrightarrow> rel y (fst (nested evt arg y))"
  shows "set (listeners (fst (run_handler nested E l arg x))) \<subseteq> set (listeners x)"
proof (cases "lhandler l")
  case HResError
  have "set (listeners (fst (nested evt a x))) \<subseteq> set (listeners x)" for evt a
    using nested [OF assms(1), of evt a] by (simp add: rel_def)
  then show ?thesis using HResError by (simp add: run_handler_def split: option.split)
next
  case (HSrsp tid)
  then show ?thesis by (simp add: run_handler_def srsp_listener_listeners)
next
  case (HReset cb)
  then show ?thesis by (simp add: run_handler_def reset_listener_def)
next
  case (HUser n)
  then show ?thesis by (simp add: run_handler_def)
qed

lemma snapf_rel: "snapf ls s \<Longrightarrow> rel s s' \<Longrightarrow> snapf ls s'"
  using snap_rel by (auto simp: snapf_def)

lemma snapf_tl: "snapf (l # ls) s \<Longrightarrow> snapf ls s"
  by (simp add: snapf_def snap_def)

lemma snapf_start: "wfz s \<Longrightarrow> cbs_fun s \<Longrightarrow> snapf (listenersOf evt s) s"
  using snap_wfz [of s evt] by (auto simp: snapf_def cbs_fun_def listenersOf_def)

lemma relx_nested_rel:
  assumes "\<And>evt arg x. wfz x \<Longrightarrow> cbs_fun x \<Longrightarrow> relx x (fst (nested evt arg x))"
  shows "\<And>evt arg x. wfz x \<and> cbs_fun x \<Longrightarrow> rel x (fst (nested evt arg x))"
  using assms relx_rel by blast

lemma run_ls_exact:
  assumes nested: "\<And>evt arg x. wfz x \<Longrightarrow> cbs_fun x \<Longrightarrow> relx x (fst (nested evt arg x))"
    and nrel: "\<And>evt arg x. wfz x \<Longrightarrow> rel x (fst (nested evt arg x))"
    and "wfz s" and "cbs_fun s" and "snapf ls s"
  shows "relx s (fst (run_ls nested E ls arg s)) \<and> snd (run_ls nested E ls arg s) = None
       \<and> (\<forall>l \<in> set ls. lonce l \<longrightarrow> l \<notin> set (listeners (fst (run_ls nested E ls arg s))))"
  using assms(3-5)
proof (induction ls arbitrary: s)
  case Nil
  then show ?case by (simp add: relx_refl)
next
  case (Cons l ls)
  have sn: "snapf ls s" using Cons.prems(3) by (rule snapf_tl)
  have sl: "\<forall>m \<in> set (listeners s). lid m = lid l \<longrightarrow> m = l"
    and hs: "\<forall>tid. lhandler l = HSrsp tid \<longrightarrow> lonce l"
    and hr: "\<forall>cb. lhandler l = HReset cb \<longrightarrow> is_fun cb"
    using Cons.prems(3) by (simp_all add: snapf_def snap_def)
  show ?case
  proof (cases "lonce l \<and> \<not> registered (lid l) s")
    case True
    note ih = Cons.IH [OF Cons.prems(1,2) sn]
    have "l \<notin> set (listeners s)" using True by (auto simp: registered_iff)
    moreover have "set (listeners (fst (run_ls nested E ls arg s))) \<subseteq> set (listeners s)"
      using ih by (simp add: relx_def rel_def)
    ultimately have "l \<notin> set (listeners (fst (run_ls nested E ls arg s)))" by blast
    then show ?thesis using True ih by simp
  next
    case False
    define s1 where "s1 = (if lonce l then removeListener (lid l) s else s)"
    have mem: "lonce l \<longrightarrow> l \<in> set (listeners s)"
      using False sl by (auto simp: registered_iff)
    note h = run_handler_relx [where nested = nested and E = E and arg = arg and l = l and s = s,
        OF Cons.prems(1,2) mem hs hr nested]
    obtain s2 x where p: "run_handler nested E l arg s1 = (s2, x)"
      by (cases "run_handler nested E l arg s1")
    have x: "x = None" and r2: "relx s s2" using h p unfolding s1_def by simp_all
    have rr: "rel s s2" using r2 by (rule relx_rel)
    have w1: "wfz s1" unfolding s1_def using Cons.prems(1) by (simp add: wfz_rel [OF _ remove_rel])
    have sub: "set (listeners s2) \<subseteq> set (listeners s1)"
      using run_handler_sub [where nested = nested and E = E and l = l and arg = arg and x = s1, OF w1 nrel] p by simp
    have gone: "l \<notin> set (listeners s2)" if "lonce l"
      using sub that by (auto simp: s1_def removeListener_def)
    note ih = Cons.IH [OF wfz_rel [OF Cons.prems(1) rr] cbs_fun_rel [OF Cons.prems(2) rr] snapf_rel [OF sn rr]]
    have eq: "run_ls nested E (l # ls) arg s = run_ls nested E ls arg s2"
      using False p x unfolding s1_def by (simp only: run_ls.simps if_False) simp
    have sub2: "set (listeners (fst (run_ls nested E ls arg s2))) \<subseteq> set (listeners s2)"
      using ih by (simp add: relx_def rel_def)
    have "relx s (fst (run_ls nested E ls arg s2))" using r2 ih relx_trans by blast
    moreover have "lonce l \<longrightarrow> l \<notin> set (listeners (fst (run_ls nested E ls arg s2)))"
      using gone sub2 by blast
    ultimately show ?thesis unfolding eq using ih by simp
  qed
qed

lemma emit_exact:
  assumes "wfz s" and "cbs_fun s"
  shows "relx s (fst (emit d E evt arg s)) \<and> snd (emit d E evt arg s) = None
       \<and> (\<forall>l \<in> set (listenersOf evt s). lonce l \<longrightarrow> l \<notin> set (listeners (fst (emit d E evt arg s))))"
  using assms
proof (induction d arbitrary: s evt arg)
  case 0
  show ?case
    using run_ls_exact [where nested = "\<lambda>evt' arg' s'. (s', None)" and s = s
        and ls = "listenersOf evt s" and E = E and arg = arg] 0
    by (simp add: relx_refl rel_refl snapf_start)
next
  case (Suc d)
  have n: "\<And>evt arg x. wfz x \<Longrightarrow> cbs_fun x \<Longrightarrow> relx x (fst (emit d E evt arg x))"
    using Suc.IH by blast
  show ?case
    using run_ls_exact [where nested = "emit d E" and s = s and ls = "listenersOf evt s"
        and E = E and arg = arg, OF n emit_rel Suc.prems]
    by (simp add: snapf_start Suc.prems)
qed

text \<open>A trigger for a pending transaction settles it.\<close>

lemma trigger_settles:
  assumes "wfz s" and "cbs_fun s" and "pending tid s"
  shows "settles tid (fst (emit d E (srspEvt (txns s ! tid)) r s)) = 1"
    and "\<not> pending tid (fst (emit d E (srspEvt (txns s ! tid)) r s))"
    and "snd (emit d E (srspEvt (txns s ! tid)) r s) = None"
proof -
  let ?s' = "fst (emit d E (srspEvt (txns s ! tid)) r s)"
  note e = emit_exact [where d = d and E = E and evt = "srspEvt (txns s ! tid)" and arg = r,
      OF assms(1,2)]
  obtain l where l: "l \<in> set (listeners s)" "lhandler l = HSrsp tid"
    using assms(3) by (auto simp: pending_iff)
  have t: "lonce l" "levt l = srspEvt (txns s ! tid)"
    using assms(1) l by (auto simp: wfz_def table_ok_def)
  have "l \<in> set (listenersOf (srspEvt (txns s ! tid)) s)" using l t by (simp add: listenersOf_def)
  then have g: "l \<notin> set (listeners ?s')" using e t by blast
  have sub: "set (listeners ?s') \<subseteq> set (listeners s)" using e by (simp add: relx_def rel_def)
  have i0: "ids_ok s" using assms(1) by (simp add: wfz_def)
  show np: "\<not> pending tid ?s'"
  proof
    assume "pending tid ?s'"
    then obtain m where m: "m \<in> set (listeners ?s')" "lhandler m = HSrsp tid"
      by (auto simp: pending_iff)
    then have "m \<in> set (listeners s)" using sub by auto
    then have "m = l" using i0 l m unfolding ids_ok_def by blast
    then show False using m g by simp
  qed
  have "settles tid s = 0" using wfz_pending(1) [OF assms(1,3)] .
  then show "settles tid ?s' = 1" using e np assms(3) by (simp add: relx_def)
  show "snd (emit d E (srspEvt (txns s ! tid)) r s) = None" using e by simp
qed

lemma kp_refl: "kp H s s"
  by (simp add: kp_def)

lemma kp_trans:
  assumes "kp H s x" and "kp H x y"
  shows "kp H s y"
proof -
  have a: "set (timers y) \<subseteq> set (timers s)"
    using assms unfolding kp_def by blast
  have b: "\<forall>tm \<in> set (timers s). tm \<in> set (timers y) \<or> tmid tm \<in> H"
    using assms unfolding kp_def by blast
  have c: "distinct (map tmid (timers s)) \<longrightarrow> distinct (map tmid (timers y))"
    using assms unfolding kp_def by blast
  have d: "\<forall>i. handles (txns y ! i) \<subseteq> handles (txns s ! i)"
  proof
    fix i
    have "handles (txns y ! i) \<subseteq> handles (txns x ! i)" using assms(2) by (simp add: kp_def)
    moreover have "handles (txns x ! i) \<subseteq> handles (txns s ! i)" using assms(1) by (simp add: kp_def)
    ultimately show "handles (txns y ! i) \<subseteq> handles (txns s ! i)" by (rule subset_trans)
  qed
  have e: "qfun s \<longrightarrow> qfun y"
    using assms unfolding kp_def by blast
  show ?thesis unfolding kp_def using a b c d e by blast
qed

lemma kp_mono: "kp H s x \<Longrightarrow> H \<subseteq> H' \<Longrightarrow> kp H' s x"
  unfolding kp_def by blast

lemma handles_upd:
  assumes "handles (f (txns x ! tid)) \<subseteq> handles (txns x ! tid)"
  shows "handles (txns (upd_txn tid f x) ! i) \<subseteq> handles (txns x ! i)"
proof (cases "tid < length (txns x)")
  case True
  then show ?thesis using assms by (cases "i = tid") (simp_all add: upd_txn_def)
next
  case False
  then show ?thesis by (simp add: upd_txn_def list_update_beyond)
qed

lemma kp_upd_txn:
  assumes "handles (f (txns x ! tid)) \<subseteq> handles (txns x ! tid)"
  shows "kp H x (upd_txn tid f x)"
proof -
  have a: "timers (upd_txn tid f x) = timers x" "qfun (upd_txn tid f x) = qfun x"
    by (simp_all add: upd_txn_def qfun_def)
  have h: "\<forall>i. handles (txns (upd_txn tid f x) ! i) \<subseteq> handles (txns x ! i)"
    using handles_upd [where f = f and x = x and tid = tid, OF assms] by simp
  show ?thesis unfolding kp_def using h a by simp
qed

lemma kp_clear: "h \<in> H \<Longrightarrow> kp H x (clearTimeout h x)"
  by (auto simp: kp_def clearTimeout_def qfun_def distinct_map_filter)

lemma findIndex_Some: "findIndex P xs = Some i \<Longrightarrow> i < length xs \<and> P (xs ! i)"
proof (induction xs arbitrary: i)
  case Nil
  then show ?case by simp
next
  case (Cons x xs)
  then show ?case by (auto split: if_splits)
qed

lemma set_splice1: "set (splice1 i xs) \<subseteq> set xs"
proof -
  have "set (take i xs) \<subseteq> set xs" by (rule set_take_subset)
  moreover have "set (drop (Suc i) xs) \<subseteq> set xs" by (rule set_drop_subset)
  ultimately show ?thesis by (simp add: splice1_def)
qed

lemma kp_sched: "kp H x (snd (scheduleNextSend E e x))"
proof -
  have t: "timers (snd (scheduleNextSend E e x)) = timers x"
    "txns (snd (scheduleNextSend E e x)) = txns x"
    by (simp_all add: scheduleNextSend_def setImmediate_def split: list.split option.split)
  have q: "qfun (snd (scheduleNextSend E e x))" if q: "qfun x"
  proof (cases "txQueue x")
    case Nil
    then show ?thesis using q by (simp add: scheduleNextSend_def)
  next
    case (Cons a as)
    show ?thesis
    proof (cases e)
      case False
      then show ?thesis using q Cons
        by (auto simp: scheduleNextSend_def setImmediate_def qfun_def)
    next
      case True
      show ?thesis
      proof (cases "findIndex (\<lambda>y. \<not> collides E (backlog x) y) (txQueue x)")
        case None
        then show ?thesis using q Cons True by (simp add: scheduleNextSend_def)
      next
        case (Some i)
        then have i: "i < length (txQueue x)" using findIndex_Some by fastforce
        then have m: "txQueue x ! i \<in> set (txQueue x)" by simp
        have s: "set (splice1 i (txQueue x)) \<subseteq> set (txQueue x)" by (rule set_splice1)
        show ?thesis using q Cons True Some m s
          by (auto simp: scheduleNextSend_def setImmediate_def qfun_def)
      qed
    qed
  qed
  show ?thesis unfolding kp_def using t q by simp
qed

lemma kp_invoke: "kp H x (fst (invoke st f args x))"
  by (simp add: kp_def invoke_def qfun_def split: jsval.split)

lemma kp_step:
  "kp H x (setImmediate (KSweep t) x)"
  "kp H x (x\<lparr> spinLock := v1 \<rparr>)"
  "kp H x (x\<lparr> backlog := v2 \<rparr>)"
  "kp H x (x\<lparr> resetting := v3 \<rparr>)"
  "kp H x (x\<lparr> txQueue := [] \<rparr>)"
  "kp H x (x\<lparr> now := v7 \<rparr>)"
  "kp H x (x\<lparr> flushQ := v8 \<rparr>)"
  "kp H x (x\<lparr> closeCbs := v9 \<rparr>)"
  "kp H x (x\<lparr> closeWait := v10 \<rparr>)"
  "kp H x (x\<lparr> spLog := v11 \<rparr>)"
  "kp H x (x\<lparr> sp := v12 \<rparr>)"
  "kp H x (x\<lparr> init := v13 \<rparr>)"
  "kp H x (x\<lparr> notified := v14 \<rparr>)"
  "kp H x (x\<lparr> thrown := v15 \<rparr>)"
  "kp H x (x\<lparr> wire := v16 \<rparr>)"
  "kp H x (unpi_send t1 t2 t3 t4 x)"
  "kp H x (x\<lparr> listeners := v17 \<rparr>)"
  "kp H x (x\<lparr> calls := v18 \<rparr>)"
  "kp H x (removeListener i x)"
  by (simp_all add: kp_def qfun_def setImmediate_def unpi_send_def removeListener_def)

lemma kp_intros:
  "kp H s s"
  "kp H s x \<Longrightarrow> kp H s (upd_txn tid (\<lambda>t. t\<lparr> sreqTimeout := None \<rparr>) x)"
  "kp H s x \<Longrightarrow> kp H s (upd_txn tid (\<lambda>t. t\<lparr> sreqNextQueue := None \<rparr>) x)"
  "kp H s x \<Longrightarrow> kp H s (upd_txn tid (\<lambda>t. t\<lparr> ownEvent := c \<rparr>) x)"
  "kp H s x \<Longrightarrow> h \<in> H \<Longrightarrow> kp H s (clearTimeout h x)"
  "kp H s x \<Longrightarrow> kp H s (setImmediate (KSweep t) x)"
  "kp H s x \<Longrightarrow> kp H s (snd (scheduleNextSend E e x))"
  "kp H s x \<Longrightarrow> kp H s (fst (invoke st f args x))"
  "kp H s x \<Longrightarrow> kp H s (x\<lparr> spinLock := v1 \<rparr>)"
  "kp H s x \<Longrightarrow> kp H s (x\<lparr> backlog := v2 \<rparr>)"
  "kp H s x \<Longrightarrow> kp H s (x\<lparr> resetting := v3 \<rparr>)"
  "kp H s x \<Longrightarrow> kp H s (x\<lparr> txQueue := [] \<rparr>)"
  "kp H s x \<Longrightarrow> kp H s (x\<lparr> now := v7 \<rparr>)"
  "kp H s x \<Longrightarrow> kp H s (x\<lparr> flushQ := v8 \<rparr>)"
  "kp H s x \<Longrightarrow> kp H s (x\<lparr> closeCbs := v9 \<rparr>)"
  "kp H s x \<Longrightarrow> kp H s (x\<lparr> closeWait := v10 \<rparr>)"
  "kp H s x \<Longrightarrow> kp H s (x\<lparr> spLog := v11 \<rparr>)"
  "kp H s x \<Longrightarrow> kp H s (x\<lparr> sp := v12 \<rparr>)"
  "kp H s x \<Longrightarrow> kp H s (x\<lparr> init := v13 \<rparr>)"
  "kp H s x \<Longrightarrow> kp H s (x\<lparr> notified := v14 \<rparr>)"
  "kp H s x \<Longrightarrow> kp H s (x\<lparr> thrown := v15 \<rparr>)"
  "kp H s x \<Longrightarrow> kp H s (x\<lparr> wire := v16 \<rparr>)"
  "kp H s x \<Longrightarrow> kp H s (unpi_send t1 t2 t3 t4 x)"
  "kp H s x \<Longrightarrow> kp H s (removeListener i x)"
proof -
  show "kp H s s" by (rule kp_refl)
  show "kp H s x \<Longrightarrow> kp H s (upd_txn tid (\<lambda>t. t\<lparr> sreqTimeout := None \<rparr>) x)"
    by (erule kp_trans) (rule kp_upd_txn, simp add: handles_def)
  show "kp H s x \<Longrightarrow> kp H s (upd_txn tid (\<lambda>t. t\<lparr> sreqNextQueue := None \<rparr>) x)"
    by (erule kp_trans) (rule kp_upd_txn, simp add: handles_def)
  show "kp H s x \<Longrightarrow> kp H s (upd_txn tid (\<lambda>t. t\<lparr> ownEvent := c \<rparr>) x)"
    by (erule kp_trans) (rule kp_upd_txn, simp add: handles_def)
  show "kp H s x \<Longrightarrow> h \<in> H \<Longrightarrow> kp H s (clearTimeout h x)"
    by (erule kp_trans) (rule kp_clear)
  show "kp H s x \<Longrightarrow> kp H s (snd (scheduleNextSend E e x))"
    by (erule kp_trans) (rule kp_sched)
  show "kp H s x \<Longrightarrow> kp H s (fst (invoke st f args x))"
    by (erule kp_trans) (rule kp_invoke)
  show "kp H s x \<Longrightarrow> kp H s (setImmediate (KSweep t) x)"
    by (erule kp_trans) (rule kp_step)
  show "kp H s x \<Longrightarrow> kp H s (x\<lparr> spinLock := v1 \<rparr>)"
    by (erule kp_trans) (rule kp_step)
  show "kp H s x \<Longrightarrow> kp H s (x\<lparr> backlog := v2 \<rparr>)"
    by (erule kp_trans) (rule kp_step)
  show "kp H s x \<Longrightarrow> kp H s (x\<lparr> resetting := v3 \<rparr>)"
    by (erule kp_trans) (rule kp_step)
  show "kp H s x \<Longrightarrow> kp H s (x\<lparr> txQueue := [] \<rparr>)"
    by (erule kp_trans) (rule kp_step)
  show "kp H s x \<Longrightarrow> kp H s (x\<lparr> now := v7 \<rparr>)"
    by (erule kp_trans) (rule kp_step)
  show "kp H s x \<Longrightarrow> kp H s (x\<lparr> flushQ := v8 \<rparr>)"
    by (erule kp_trans) (rule kp_step)
  show "kp H s x \<Longrightarrow> kp H s (x\<lparr> closeCbs := v9 \<rparr>)"
    by (erule kp_trans) (rule kp_step)
  show "kp H s x \<Longrightarrow> kp H s (x\<lparr> closeWait := v10 \<rparr>)"
    by (erule kp_trans) (rule kp_step)
  show "kp H s x \<Longrightarrow> kp H s (x\<lparr> spLog := v11 \<rparr>)"
    by (erule kp_trans) (rule kp_step)
  show "kp H s x \<Longrightarrow> kp H s (x\<lparr> sp := v12 \<rparr>)"
    by (erule kp_trans) (rule kp_step)
  show "kp H s x \<Longrightarrow> kp H s (x\<lparr> init := v13 \<rparr>)"
    by (erule kp_trans) (rule kp_step)
  show "kp H s x \<Longrightarrow> kp H s (x\<lparr> notified := v14 \<rparr>)"
    by (erule kp_trans) (rule kp_step)
  show "kp H s x \<Longrightarrow> kp H s (x\<lparr> thrown := v15 \<rparr>)"
    by (erule kp_trans) (rule kp_step)
  show "kp H s x \<Longrightarrow> kp H s (x\<lparr> wire := v16 \<rparr>)"
    by (erule kp_trans) (rule kp_step)
  show "kp H s x \<Longrightarrow> kp H s (unpi_send t1 t2 t3 t4 x)"
    by (erule kp_trans) (rule kp_step)
  show "kp H s x \<Longrightarrow> kp H s (removeListener i x)"
    by (erule kp_trans) (rule kp_step)
qed

lemma kept_refl: "kept s s"
  by (simp add: kept_def)

lemma kept_trans:
  assumes "kept s x" and "kept x y" and "set (listeners y) \<subseteq> set (listeners x)"
  shows "kept s y"
proof -
  have p: "\<not> pending tid y" if "\<not> pending tid x" for tid
    using that assms(3) by (auto simp: pending_iff)
  have a: "set (timers y) \<subseteq> set (timers s)"
    using assms(1,2) unfolding kept_def by blast
  have b: "\<forall>tm \<in> set (timers s). tm \<in> set (timers y) \<or> (\<exists>tid. owner tm = Some tid \<and> \<not> pending tid y)"
  proof
    fix tm
    assume m: "tm \<in> set (timers s)"
    show "tm \<in> set (timers y) \<or> (\<exists>tid. owner tm = Some tid \<and> \<not> pending tid y)"
    proof (cases "tm \<in> set (timers x)")
      case True
      then show ?thesis using assms(2) unfolding kept_def by blast
    next
      case False
      then obtain tid where "owner tm = Some tid" "\<not> pending tid x"
        using assms(1) m unfolding kept_def by blast
      then show ?thesis using p by blast
    qed
  qed
  have c: "distinct (map tmid (timers s)) \<longrightarrow> distinct (map tmid (timers y))"
    using assms(1,2) unfolding kept_def by blast
  have d: "\<forall>i. handles (txns y ! i) \<subseteq> handles (txns s ! i)"
  proof
    fix i
    have "handles (txns y ! i) \<subseteq> handles (txns x ! i)" using assms(2) by (simp add: kept_def)
    moreover have "handles (txns x ! i) \<subseteq> handles (txns s ! i)" using assms(1) by (simp add: kept_def)
    ultimately show "handles (txns y ! i) \<subseteq> handles (txns s ! i)" by (rule subset_trans)
  qed
  have e: "qfun s \<longrightarrow> qfun y"
    using assms(1,2) unfolding kept_def by blast
  show ?thesis unfolding kept_def using a b c d e by blast
qed

lemma kept_kp:
  assumes "kp H s s'"
    and "\<And>tm. tm \<in> set (timers s) \<Longrightarrow> tmid tm \<in> H \<Longrightarrow> \<exists>tid. owner tm = Some tid \<and> \<not> pending tid s'"
  shows "kept s s'"
proof -
  have b: "\<forall>tm \<in> set (timers s). tm \<in> set (timers s') \<or> (\<exists>tid. owner tm = Some tid \<and> \<not> pending tid s')"
  proof
    fix tm
    assume m: "tm \<in> set (timers s)"
    then have "tm \<in> set (timers s') \<or> tmid tm \<in> H" using assms(1) by (simp add: kp_def)
    then show "tm \<in> set (timers s') \<or> (\<exists>tid. owner tm = Some tid \<and> \<not> pending tid s')"
      using assms(2) [OF m] by blast
  qed
  show ?thesis unfolding kept_def using assms(1) b by (simp add: kp_def)
qed

lemma kept_kp0: "kp {} s s' \<Longrightarrow> kept s s'"
  by (rule kept_kp [where H = "{}"]) simp_all

lemma timers_ok_kept:
  assumes "timers_ok s" and "kept s s'" and "nextId s' = nextId s" and "length (txns s') = length (txns s)"
  shows "timers_ok s'"
proof -
  have sub: "set (timers s') \<subseteq> set (timers s)" and h: "\<And>i. handles (txns s' ! i) \<subseteq> handles (txns s ! i)"
    and d: "distinct (map tmid (timers s'))"
    using assms(1,2) by (simp_all add: kept_def timers_ok_def)
  have a: "\<forall>tm \<in> set (timers s'). tmid tm < nextId s'"
    using assms(1,3) sub by (auto simp: timers_ok_def)
  have b: "h' < nextId s' \<and> (\<forall>tm \<in> set (timers s'). tmid tm = h' \<longrightarrow> owner tm = Some tid)"
    if "tid < length (txns s')" and "h' \<in> handles (txns s' ! tid)" for tid h'
  proof -
    have "tid < length (txns s)" "h' \<in> handles (txns s ! tid)"
      using that assms(4) h by auto
    then have "h' < nextId s \<and> (\<forall>tm \<in> set (timers s). tmid tm = h' \<longrightarrow> owner tm = Some tid)"
      using assms(1) unfolding timers_ok_def by blast
    then show ?thesis using sub assms(3) by auto
  qed
  show ?thesis unfolding timers_ok_def using d a b by blast
qed

lemma timers_ok_rel: "timers_ok s \<Longrightarrow> kept s s' \<Longrightarrow> rel s s' \<Longrightarrow> timers_ok s'"
  by (rule timers_ok_kept) (simp_all add: rel_def)

lemma kp_case_option:
  "(x = None \<Longrightarrow> kp H s a) \<Longrightarrow> (\<And>h. x = Some h \<Longrightarrow> kp H s (b h)) \<Longrightarrow>
     kp H s (case x of None \<Rightarrow> a | Some h \<Rightarrow> b h)"
  by (cases x) simp_all

lemma kp_if: "kp H s a \<Longrightarrow> kp H s b \<Longrightarrow> kp H s (if c then a else b)"
  by simp

lemma srsp_listener_shape2:
  assumes "tid < length (txns s)"
  shows "\<exists>s6 args. srsp_listener E tid r s = invoke (SListener tid) (tcallback (txns s ! tid)) args s6
           \<and> same s s6 \<and> kp (handles (txns s ! tid)) s s6"
proof -
  have ne: "(JStr ''__error__'' = JStr ''__timeout__'') = False"
    by simp
  consider "r = JStr ''__timeout__''" | "r \<noteq> JStr ''__timeout__''" "r = JStr ''__error__''"
    | "r \<noteq> JStr ''__timeout__''" "r \<noteq> JStr ''__error__''"
    by blast
  then show ?thesis
  proof cases
    case 1
    show ?thesis unfolding srsp_listener_def Let_def
      apply (simp only: assms 1 if_True if_False simp_thms)
      apply (rule exI, rule exI, rule conjI, rule refl, rule conjI)
       apply (intro same_intros same_case_option same_if)
      apply (intro kp_intros kp_case_option kp_if)
       apply (simp_all add: handles_def)
      done
  next
    case 2
    show ?thesis unfolding srsp_listener_def Let_def
      apply (simp only: assms 2 ne if_True if_False simp_thms)
      apply (rule exI, rule exI, rule conjI, rule refl, rule conjI)
       apply (intro same_intros same_case_option same_if)
      apply (intro kp_intros kp_case_option kp_if)
       apply (simp_all add: handles_def)
      done
  next
    case 3
    show ?thesis unfolding srsp_listener_def Let_def
      apply (simp only: assms 3 if_True if_False simp_thms)
      apply (rule exI, rule exI, rule conjI, rule refl, rule conjI)
       apply (intro same_intros same_case_option same_if)
      apply (intro kp_intros kp_case_option kp_if)
       apply (simp_all add: handles_def)
      done
  qed
qed

lemma settle_kept:
  assumes "wfz s" and "timers_ok s" and "l \<in> set (listeners s)" and "lhandler l = HSrsp tid"
  shows "kept s (fst (srsp_listener E tid r (removeListener (lid l) s)))"
proof -
  let ?s1 = "removeListener (lid l) s"
  let ?H = "handles (txns s ! tid)"
  have t: "tid < length (txns s)"
    using assms by (auto simp: wfz_def table_ok_def)
  then have t1: "tid < length (txns ?s1)" by (simp add: removeListener_def)
  have x1: "txns ?s1 = txns s" by (simp add: removeListener_def)
  obtain s6 args where
    eq: "srsp_listener E tid r ?s1 = invoke (SListener tid) (tcallback (txns ?s1 ! tid)) args s6"
    and sm: "same ?s1 s6" and k: "kp ?H ?s1 s6"
    using srsp_listener_shape2 [OF t1, of E r] x1 by auto
  let ?s2 = "fst (srsp_listener E tid r ?s1)"
  have k2: "kp ?H s ?s2"
    unfolding eq by (intro kp_trans [OF _ kp_invoke] kp_trans [OF _ k] kp_step)
  have ls: "listeners ?s2 = filter (\<lambda>m. lid m \<noteq> lid l) (listeners s)"
    unfolding eq using sm by (simp add: same_def removeListener_def)
  have np: "\<not> pending tid ?s2"
  proof
    assume "pending tid ?s2"
    then obtain m where m: "m \<in> set (listeners s)" "lid m \<noteq> lid l" "lhandler m = HSrsp tid"
      using ls by (auto simp: pending_iff)
    have "ids_ok s" using assms(1) by (simp add: wfz_def)
    then have "m = l" using m assms(3,4) unfolding ids_ok_def by blast
    then show False using m by simp
  qed
  show ?thesis
  proof (rule kept_kp [OF k2])
    fix tm
    assume "tm \<in> set (timers s)" and "tmid tm \<in> ?H"
    then have "owner tm = Some tid"
      using assms(2) t unfolding timers_ok_def by blast
    then show "\<exists>tid. owner tm = Some tid \<and> \<not> pending tid ?s2"
      using np by blast
  qed
qed

lemma run_handler_kept:
  assumes "wfz s" and "timers_ok s" and "lonce l \<longrightarrow> l \<in> set (listeners s)"
    and "\<forall>tid. lhandler l = HSrsp tid \<longrightarrow> lonce l"
    and nested: "\<And>evt arg x. wfz x \<Longrightarrow> timers_ok x \<Longrightarrow> kept x (fst (nested evt arg x))"
    and nrel: "\<And>evt arg x. wfz x \<Longrightarrow> rel x (fst (nested evt arg x))"
  shows "kept s (fst (run_handler nested E l arg (if lonce l then removeListener (lid l) s else s)))"
proof -
  define s1 where "s1 = (if lonce l then removeListener (lid l) s else s)"
  have r1: "rel s s1" by (simp add: s1_def remove_rel rel_refl)
  have w1: "wfz s1" using assms(1) r1 by (rule wfz_rel)
  have k1: "kept s s1" unfolding s1_def by (rule kept_kp0) (simp add: kp_step kp_refl)
  have t1: "timers_ok s1" using assms(2) k1 r1 by (rule timers_ok_rel)
  have sub: "set (listeners (fst (run_handler nested E l arg s1))) \<subseteq> set (listeners s1)"
    using run_handler_sub [where nested = nested and E = E and l = l and arg = arg and x = s1, OF w1 nrel] .
  have "kept s (fst (run_handler nested E l arg s1))"
  proof (cases "lhandler l")
    case HResError
    have "kept s1 (fst (run_handler nested E l arg s1))"
    proof (cases "res_error_target E arg")
      case None
      then show ?thesis using HResError by (simp add: run_handler_def kept_refl)
    next
      case (Some evt)
      show ?thesis
      proof (cases "listenerCount evt s1 = 0")
        case True
        then show ?thesis using HResError Some by (simp add: run_handler_def kept_refl)
      next
        case False
        then show ?thesis using HResError Some nested [OF w1 t1] by (simp add: run_handler_def)
      qed
    qed
    then show ?thesis using k1 sub kept_trans by blast
  next
    case (HSrsp tid)
    then have "lonce l" "l \<in> set (listeners s)" using assms(3,4) by simp_all
    then show ?thesis using settle_kept [OF assms(1,2) _ HSrsp] HSrsp by (simp add: run_handler_def s1_def)
  next
    case (HReset cb)
    have "kp {} s1 (fst (invoke SReset cb [JNull] (s1\<lparr> resetting := False, spinLock := False \<rparr>)))"
      by (intro kp_intros)
    then have "kept s1 (fst (run_handler nested E l arg s1))"
      using HReset by (simp add: run_handler_def reset_listener_def kept_kp0)
    then show ?thesis using k1 sub kept_trans by blast
  next
    case (HUser n)
    have "kp {} s1 (s1\<lparr> notified := notified s1 @ [(n, levt l, arg)] \<rparr>)"
      by (intro kp_intros)
    then have "kept s1 (fst (run_handler nested E l arg s1))"
      using HUser by (simp add: run_handler_def kept_kp0)
    then show ?thesis using k1 sub kept_trans by blast
  qed
  then show ?thesis unfolding s1_def .
qed

lemma run_ls_kept:
  assumes nested: "\<And>evt arg x. wfz x \<Longrightarrow> timers_ok x \<Longrightarrow> kept x (fst (nested evt arg x))"
    and nrel: "\<And>evt arg x. wfz x \<Longrightarrow> rel x (fst (nested evt arg x))"
    and "wfz s" and "timers_ok s" and "snap ls s"
  shows "kept s (fst (run_ls nested E ls arg s))"
  using assms(3-5)
proof (induction ls arbitrary: s)
  case Nil
  then show ?case by (simp add: kept_refl)
next
  case (Cons l ls)
  have sn: "snap ls s" using Cons.prems(3) by (rule snap_tl)
  show ?case
  proof (cases "lonce l \<and> \<not> registered (lid l) s")
    case True
    then show ?thesis using Cons.IH [OF Cons.prems(1,2) sn] by simp
  next
    case False
    let ?r = "run_handler nested E l arg (if lonce l then removeListener (lid l) s else s)"
    have mem: "lonce l \<longrightarrow> l \<in> set (listeners s)"
      using False Cons.prems(3) by (auto simp: registered_iff snap_def)
    have hs: "\<forall>tid. lhandler l = HSrsp tid \<longrightarrow> lonce l"
      using Cons.prems(3) by (simp add: snap_def)
    have r: "rel s (fst ?r)"
      using run_handler_rel [where nested = nested and E = E and arg = arg and l = l and s = s,
          OF Cons.prems(1) mem hs nrel] by simp
    have k: "kept s (fst ?r)"
      using run_handler_kept [where nested = nested and E = E and arg = arg and l = l and s = s,
          OF Cons.prems(1,2) mem hs nested nrel] by simp
    have eq: "run_ls nested E (l # ls) arg s =
        (case ?r of (s', Some ex) \<Rightarrow> (s', Some ex) | (s', None) \<Rightarrow> run_ls nested E ls arg s')"
      using False by (simp only: run_ls.simps if_False)
    obtain s2 x where p: "?r = (s2, x)" by (cases ?r)
    have r2: "rel s s2" using r p by simp
    have k2: "kept s s2" using k p by simp
    show ?thesis
    proof (cases x)
      case None
      have w2: "wfz s2" using Cons.prems(1) r2 by (rule wfz_rel)
      have t2: "timers_ok s2" using Cons.prems(2) k2 r2 by (rule timers_ok_rel)
      have k3: "kept s2 (fst (run_ls nested E ls arg s2))"
        using Cons.IH [OF w2 t2 snap_rel [OF sn r2]] .
      have "rel s2 (fst (run_ls nested E ls arg s2))"
        using run_ls_rel [where nested = nested and E = E and arg = arg and ls = ls and s = s2,
            OF nrel w2 snap_rel [OF sn r2]] .
      then have sub: "set (listeners (fst (run_ls nested E ls arg s2))) \<subseteq> set (listeners s2)"
        by (simp add: rel_def)
      have "kept s (fst (run_ls nested E ls arg s2))"
        using kept_trans [OF k2 k3 sub] .
      then show ?thesis unfolding eq p using None by simp
    next
      case (Some ex)
      then show ?thesis unfolding eq p using k2 by simp
    qed
  qed
qed

lemma emit_kept: "wfz s \<Longrightarrow> timers_ok s \<Longrightarrow> kept s (fst (emit d E evt arg s))"
proof (induction d arbitrary: s evt arg)
  case 0
  show ?case
    using run_ls_kept [where nested = "\<lambda>evt' arg' s'. (s', None)" and s = s
        and ls = "listenersOf evt s" and E = E and arg = arg] 0
    by (simp add: rel_refl kept_refl snap_wfz)
next
  case (Suc d)
  have n: "\<And>evt arg x. wfz x \<Longrightarrow> timers_ok x \<Longrightarrow> kept x (fst (emit d E evt arg x))"
    using Suc.IH by blast
  show ?case
    using run_ls_kept [where nested = "emit d E" and s = s and ls = "listenersOf evt s"
        and E = E and arg = arg, OF n emit_rel Suc.prems]
    by (simp add: snap_wfz Suc.prems)
qed

lemma relt_refl: "relt s s"
  by (simp add: relt_def relx_refl kept_refl)

lemma relt_rel: "relt s s' \<Longrightarrow> rel s s'"
  by (simp add: relt_def relx_rel)

lemma relt_trans:
  assumes "relt s x" and "relt x y"
  shows "relt s y"
proof -
  have "set (listeners y) \<subseteq> set (listeners x)"
    using relt_rel [OF assms(2)] by (simp add: rel_def)
  then show ?thesis
    using assms relx_trans kept_trans unfolding relt_def by blast
qed

lemma relt_q: "same x y \<Longrightarrow> kp {} x y \<Longrightarrow> relt x y"
  by (simp add: relt_def relx_same kept_kp0)

lemma invoke_relt:
  assumes "\<And>tid. st \<noteq> SListener tid"
  shows "relt s (fst (invoke st f args s))"
  unfolding relt_def using invoke_relx [OF assms] kp_invoke [THEN kept_kp0] by blast

lemma relt_intros:
  "relt s s"
  "relt s x \<Longrightarrow> relt s (upd_txn tid (\<lambda>t. t\<lparr> sreqTimeout := None \<rparr>) x)"
  "relt s x \<Longrightarrow> relt s (upd_txn tid (\<lambda>t. t\<lparr> sreqNextQueue := None \<rparr>) x)"
  "relt s x \<Longrightarrow> relt s (upd_txn tid (\<lambda>t. t\<lparr> ownEvent := c \<rparr>) x)"
  "relt s x \<Longrightarrow> relt s (setImmediate (KSweep t) x)"
  "relt s x \<Longrightarrow> relt s (snd (scheduleNextSend E e x))"
  "relt s x \<Longrightarrow> relt s (x\<lparr> spinLock := v1 \<rparr>)"
  "relt s x \<Longrightarrow> relt s (x\<lparr> backlog := v2 \<rparr>)"
  "relt s x \<Longrightarrow> relt s (x\<lparr> resetting := v3 \<rparr>)"
  "relt s x \<Longrightarrow> relt s (x\<lparr> txQueue := [] \<rparr>)"
  "relt s x \<Longrightarrow> relt s (x\<lparr> now := v7 \<rparr>)"
  "relt s x \<Longrightarrow> relt s (x\<lparr> flushQ := v8 \<rparr>)"
  "relt s x \<Longrightarrow> relt s (x\<lparr> closeCbs := v9 \<rparr>)"
  "relt s x \<Longrightarrow> relt s (x\<lparr> closeWait := v10 \<rparr>)"
  "relt s x \<Longrightarrow> relt s (x\<lparr> spLog := v11 \<rparr>)"
  "relt s x \<Longrightarrow> relt s (x\<lparr> sp := v12 \<rparr>)"
  "relt s x \<Longrightarrow> relt s (x\<lparr> init := v13 \<rparr>)"
  "relt s x \<Longrightarrow> relt s (x\<lparr> notified := v14 \<rparr>)"
  "relt s x \<Longrightarrow> relt s (x\<lparr> thrown := v15 \<rparr>)"
  "relt s x \<Longrightarrow> relt s (x\<lparr> wire := v16 \<rparr>)"
  "relt s x \<Longrightarrow> relt s (unpi_send t1 t2 t3 t4 x)"
proof -
  show "relt s s" by (rule relt_refl)
qed (erule relt_trans, rule relt_q, (intro same_intros)[1], (intro kp_intros)[1])+

lemma ok_relt:
  assumes "ok s" and "relt s s'"
  shows "ok s'"
proof -
  have r: "rel s s'" using assms(2) by (rule relt_rel)
  have k: "kept s s'" using assms(2) by (simp add: relt_def)
  show ?thesis
    using assms(1) wfz_rel [OF _ r] cbs_fun_rel [OF _ r] timers_ok_rel [OF _ k r]
    by (simp add: ok_def)
qed

lemma emit_relt:
  assumes "ok s"
  shows "relt s (fst (emit d E evt arg s))" and "snd (emit d E evt arg s) = None"
proof -
  have w: "wfz s" and c: "cbs_fun s" and t: "timers_ok s" using assms by (simp_all add: ok_def)
  show "relt s (fst (emit d E evt arg s))"
    unfolding relt_def using emit_exact [OF w c, of d E evt arg] emit_kept [OF w t, of d E evt arg]
    by simp
  show "snd (emit d E evt arg s) = None"
    using emit_exact [OF w c, of d E evt arg] by simp
qed

lemma relt_emit_if:
  "ok s \<Longrightarrow> relt s (fst (if c then emit d E evt arg s else (s, None)))"
  by (simp add: emit_relt relt_refl)

lemma mtIncomingDataHdlr_relt:
  assumes "ok s"
  shows "relt s (fst (mtIncomingDataHdlr d E err ty subsys cmd result s))"
proof -
  consider "truthy err" | "\<not> truthy err" "ty = JStr ''SRSP''"
    | "\<not> truthy err" "ty \<noteq> JStr ''SRSP''" "ty = JStr ''AREQ''"
    | "\<not> truthy err" "ty \<noteq> JStr ''SRSP''" "ty \<noteq> JStr ''AREQ''"
    by blast
  then show ?thesis
  proof cases
    case 1
    then show ?thesis by (simp add: mtIncomingDataHdlr_def relt_refl)
  next
    case 2
    then show ?thesis using assms
      by (simp add: mtIncomingDataHdlr_def relt_refl emit_relt split: jsval.split option.split)
  next
    case 3
    obtain s1 x where e: "emit d E ''AREQ'' (JObj [(''subsys'', subsys), (''ind'', cmd), (''data'', result)]) s = (s1, x)"
      by (cases "emit d E ''AREQ'' (JObj [(''subsys'', subsys), (''ind'', cmd), (''data'', result)]) s")
    have r1: "relt s s1"
      using emit_relt(1) [OF assms, of d E "''AREQ''" "JObj [(''subsys'', subsys), (''ind'', cmd), (''data'', result)]"]
      unfolding e by simp
    have w1: "ok s1" using assms r1 by (rule ok_relt)
    have r2: "relt s (fst (emit d E ''AREQ:SYS:RESET'' result s1))"
      using relt_trans [OF r1 emit_relt(1) [OF w1]] .
    show ?thesis using 3 e r1 r2
      by (simp add: mtIncomingDataHdlr_def relt_refl split: option.split)
  next
    case 4
    then show ?thesis by (simp add: mtIncomingDataHdlr_def relt_refl)
  qed
qed

lemma parseMtIncomingData_relt:
  assumes "ok s"
  shows "relt s (fst (parseMtIncomingData d E data s))"
proof -
  obtain s1 x where e: "emit d E ''data'' (frame_val data) s = (s1, x)"
    by (cases "emit d E ''data'' (frame_val data) s")
  have r1: "relt s s1"
    using emit_relt(1) [OF assms, of d E "''data''" "frame_val data"] unfolding e by simp
  have w1: "ok s1" using assms r1 by (rule ok_relt)
  have h: "relt s (fst (mtIncomingDataHdlr d E a b c f g s1))" for a b c f g
    using relt_trans [OF r1 mtIncomingDataHdlr_relt [OF w1]] .
  show ?thesis
  proof (cases x)
    case (Some ex)
    then show ?thesis using e r1 by (simp add: parseMtIncomingData_def)
  next
    case None
    note n = None
    show ?thesis
    proof (cases "fcs data \<noteq> csum data")
      case True
      then show ?thesis unfolding parseMtIncomingData_def e using n h by simp
    next
      case False
      note f = False
      show ?thesis
      proof (cases "ZpiObject E (fsubsys data) (fcmd data) JUndefined")
        case (Inl ex)
        then show ?thesis unfolding parseMtIncomingData_def e using n f h by simp
      next
        case (Inr argObj)
        note z = Inr
        show ?thesis
        proof (cases "cmdTypeKey E (ftype data)")
          case None
          then show ?thesis unfolding parseMtIncomingData_def e using n f z h by simp
        next
          case (Some ty)
          obtain err result where p: "zparse E argObj ty (JNum (len data)) (payload data) = (err, result)"
            by (cases "zparse E argObj ty (JNum (len data)) (payload data)")
          obtain s2 y where m: "mtIncomingDataHdlr d E err (JStr ty) (JStr (zsubsys argObj))
                                  (JStr (zcmd argObj)) result s1 = (s2, y)"
            by (cases "mtIncomingDataHdlr d E err (JStr ty) (JStr (zsubsys argObj))
                                  (JStr (zcmd argObj)) result s1")
          have r2: "relt s s2" using h [of err "JStr ty" "JStr (zsubsys argObj)" "JStr (zcmd argObj)" result]
            unfolding m by simp
          have r3: "relt s (fst (mtIncomingDataHdlr d E a b c f' g s2))" for a b c f' g
            using relt_trans [OF r2 mtIncomingDataHdlr_relt [OF ok_relt [OF assms r2]]] .
          show ?thesis unfolding parseMtIncomingData_def e using n f z Some p m r2 r3
            by (cases y) simp_all
        qed
      qed
    qed
  qed
qed

lemma sreqTimeout_cb_relt:
  assumes "ok s"
  shows "relt s (fst (sreqTimeout_cb d E tid s))"
proof (cases "tid < length (txns s)")
  case False
  then show ?thesis by (simp add: sreqTimeout_cb_def relt_refl)
next
  case True
  let ?r = "if listenerCount (srspEvt (txns s ! tid)) s \<noteq> 0
            then emit d E (srspEvt (txns s ! tid)) (JStr ''__timeout__'') s else (s, None)"
  obtain s1 x where e: "?r = (s1, x)" by (cases ?r)
  have r1: "relt s s1"
    using relt_emit_if [OF assms, of "listenerCount (srspEvt (txns s ! tid)) s \<noteq> 0" d E
        "srspEvt (txns s ! tid)" "JStr ''__timeout__''"]
    unfolding e by simp
  have r2: "relt s1 (upd_txn tid (\<lambda>t. t\<lparr> sreqTimeout := None \<rparr>) s1)"
    by (intro relt_intros)
  have "sreqTimeout_cb d E tid s =
      (case ?r of (s', Some ex) \<Rightarrow> (s', Some ex)
       | (s', None) \<Rightarrow> (upd_txn tid (\<lambda>t. t\<lparr> sreqTimeout := None \<rparr>) s', None))"
    using True by (simp add: sreqTimeout_cb_def)
  then show ?thesis
    unfolding e using r1 relt_trans [OF r1 r2] by (cases x) simp_all
qed

lemma sreqTimeout_cb_done:
  assumes "ok s"
  shows "\<not> pending tid (fst (sreqTimeout_cb d E tid s))"
proof (cases "pending tid s")
  case False
  then show ?thesis
    using rel_pending [OF relt_rel [OF sreqTimeout_cb_relt [OF assms, of d E tid]]] by blast
next
  case True
  have w: "wfz s" and c: "cbs_fun s" using assms by (simp_all add: ok_def)
  obtain l where l: "l \<in> set (listeners s)" "lhandler l = HSrsp tid"
    using True by (auto simp: pending_iff)
  have t: "tid < length (txns s)" "levt l = srspEvt (txns s ! tid)"
    using w l by (auto simp: wfz_def table_ok_def)
  have "l \<in> set (listenersOf (srspEvt (txns s ! tid)) s)"
    using l t by (simp add: listenersOf_def)
  then have n: "listenerCount (srspEvt (txns s ! tid)) s \<noteq> 0"
    by (auto simp: listenerCount_def)
  let ?e = "emit d E (srspEvt (txns s ! tid)) (JStr ''__timeout__'') s"
  note g = trigger_settles [OF w c True, of d E "JStr ''__timeout__''"]
  obtain s1 where e: "?e = (s1, None)" using g(3) by (cases ?e) simp
  have "\<not> pending tid s1" using g(2) unfolding e by simp
  moreover have "fst (sreqTimeout_cb d E tid s) = upd_txn tid (\<lambda>t. t\<lparr> sreqTimeout := None \<rparr>) s1"
    using t n e by (simp add: sreqTimeout_cb_def)
  ultimately show ?thesis by (simp add: pending_def upd_txn_def)
qed

lemma sweep_relt:
  assumes "ok s"
  shows "relt s (fst (sweep d E vs s))"
  using assms
proof (induction vs arbitrary: s)
  case Nil
  then show ?case by (simp add: relt_refl)
next
  case (Cons v vs)
  show ?case
  proof (cases "indexOf (backlog s) v")
    case None
    then show ?thesis using Cons by simp
  next
    case (Some pos)
    let ?r = "case v of BEntry be \<Rightarrow>
                 if listenerCount (bevt be) s \<noteq> 0 then emit d E (bevt be) (JStr ''__timeout__'') s
                 else (s, None)
              | BArray \<Rightarrow> (s, None)"
    obtain s1 x where e: "?r = (s1, x)" by (cases ?r)
    have "relt s (fst ?r)" using Cons.prems by (cases v) (simp_all add: relt_refl emit_relt)
    then have r1: "relt s s1" unfolding e by simp
    have r2: "relt s (s1\<lparr> backlog := splice1 pos (backlog s1) \<rparr>)"
      by (intro r1 relt_intros)
    have r3: "relt s (fst (sweep d E vs (s1\<lparr> backlog := splice1 pos (backlog s1) \<rparr>)))"
      using relt_trans [OF r2 Cons.IH [OF ok_relt [OF Cons.prems r2]]] .
    have "sweep d E (v # vs) s =
        (case ?r of (s', Some ex) \<Rightarrow> (s', Some ex)
         | (s', None) \<Rightarrow> sweep d E vs (s'\<lparr> backlog := splice1 pos (backlog s') \<rparr>))"
      using Some by simp
    then show ?thesis unfolding e using r1 r3 by (cases x) simp_all
  qed
qed

lemma close_inner_relt: "relt s (fst (close_inner cb s))"
proof (cases "sp s")
  case None
  then show ?thesis by (simp add: close_inner_def invoke_relt)
next
  case (Some p)
  show ?thesis
  proof (cases "isOpen p")
    case False
    then show ?thesis using Some by (simp add: close_inner_def invoke_relt)
  next
    case True
    then show ?thesis using Some
      by (simp add: close_inner_def Let_def) (intro conjI impI relt_intros)
  qed
qed

lemma call_each_relt: "relt s (fst (call_each fs arg s))"
proof (induction fs arbitrary: s)
  case Nil
  then show ?case by (simp add: relt_refl)
next
  case (Cons f fs)
  obtain s1 x where e: "invoke SClose f [arg] s = (s1, x)" by (cases "invoke SClose f [arg] s")
  have r1: "relt s s1" using invoke_relt [of SClose s f "[arg]"] unfolding e by simp
  show ?case using r1 relt_trans [OF r1 Cons.IH [of s1]] e by (cases x) simp_all
qed

lemma close_cb_relt: "relt s (fst (close_cb arg s))"
proof -
  obtain s1 x where e: "call_each (closeCbs s) arg s = (s1, x)" by (cases "call_each (closeCbs s) arg s")
  have r1: "relt s s1" using call_each_relt [of s "closeCbs s" arg] unfolding e by simp
  have r2: "relt s (s1\<lparr> closeCbs := [] \<rparr>)" by (intro r1 relt_intros)
  show ?thesis unfolding close_cb_def e using r1 r2 by (cases x) simp_all
qed

lemma spClose_relt:
  assumes "ok s"
  shows "relt s (fst (spClose d E s))"
proof -
  have r1: "relt s (s\<lparr> txQueue := [], sp := None, init := False \<rparr>)"
    by (intro relt_intros)
  show ?thesis unfolding spClose_def
    using relt_trans [OF r1 emit_relt(1) [OF ok_relt [OF assms r1]]] .
qed

lemma close_done_relt:
  assumes "ok s"
  shows "relt s (fst (close_done d E arg s))"
proof (cases "closeWait s = 0")
  case True
  then show ?thesis by (simp add: close_done_def relt_refl)
next
  case False
  obtain s1 x where e: "spClose d E (s\<lparr> closeWait := closeWait s - 1 \<rparr>) = (s1, x)"
    by (cases "spClose d E (s\<lparr> closeWait := closeWait s - 1 \<rparr>)")
  have r0: "relt s (s\<lparr> closeWait := closeWait s - 1 \<rparr>)" by (intro relt_intros)
  have r1: "relt s s1"
    using relt_trans [OF r0 spClose_relt [OF ok_relt [OF assms r0], of d E]] unfolding e by simp
  have r2: "relt s (fst (close_cb arg s1))" using relt_trans [OF r1 close_cb_relt] .
  show ?thesis using False e r1 r2 by (cases x) (simp_all add: close_done_def)
qed

lemma flush_done_relt: "relt s (fst (flush_done s))"
proof (cases "flushQ s")
  case Nil
  then show ?thesis by (simp add: flush_done_def relt_refl)
next
  case (Cons cb q)
  have r0: "relt s (s\<lparr> flushQ := q \<rparr>)" by (intro relt_intros)
  show ?thesis using Cons relt_trans [OF r0 close_inner_relt] by (simp add: flush_done_def)
qed

lemma spErr_relt: "relt s (fst (spErr s))"
proof (cases "sp s")
  case None
  then show ?thesis by (simp add: spErr_def relt_refl)
next
  case (Some p)
  have r0: "relt s (s\<lparr> sp := Some (p\<lparr> errClosing := True \<rparr>) \<rparr>)" by (intro relt_intros)
  show ?thesis using Some relt_trans [OF r0 close_inner_relt] by (simp add: spErr_def relt_refl)
qed

lemma close_relt: "relt s (fst (close cb s))"
proof (cases "init s")
  case False
  then show ?thesis by (simp add: close_def invoke_relt)
next
  case True
  then show ?thesis
    by (cases "sp s") (simp_all add: close_def relt_refl, intro relt_intros)
qed

lemma armed_kept:
  assumes "armed_but X s" and "kept s s'" and "set (listeners s') \<subseteq> set (listeners s)"
  shows "armed_but X s'"
  unfolding armed_but_def
proof (intro allI impI)
  fix tid
  assume a: "pending tid s' \<and> tid \<notin> X"
  then have p: "pending tid s" using assms(3) by (auto simp: pending_iff)
  then obtain tm where tm: "tm \<in> set (timers s)" "action tm = TSreqTimeout tid"
    using assms(1) a unfolding armed_but_def by blast
  have o: "owner tm = Some tid" using tm(2) by (simp add: owner_def)
  have "tm \<in> set (timers s') \<or> (\<exists>k. owner tm = Some k \<and> \<not> pending k s')"
    using assms(2) tm(1) unfolding kept_def by blast
  then have "tm \<in> set (timers s')" using o a by auto
  then show "\<exists>tm \<in> set (timers s'). action tm = TSreqTimeout tid" using tm(2) by blast
qed

lemma accounted_relx:
  assumes "accounted s" and "wfz s" and "relx s s'"
  shows "accounted s'"
  unfolding accounted_def
proof (intro allI impI)
  fix tid
  assume "tid < length (txns s')"
  then have t: "tid < length (txns s)" using assms(3) by (simp add: relx_def rel_def)
  have r: "rel s s'" using assms(3) by (rule relx_rel)
  show "pending tid s' \<or> settles tid s' = 1"
  proof (cases "pending tid s'")
    case True
    then show ?thesis by simp
  next
    case False
    show ?thesis
    proof (cases "pending tid s")
      case True
      have "settles tid s = 0" using wfz_pending(1) [OF assms(2) True] .
      moreover have "settles tid s' = settles tid s + 1"
        using assms(3) True False by (simp add: relx_def)
      ultimately show ?thesis by simp
    next
      case False
      then have "settles tid s = 1" using assms(1) t by (auto simp: accounted_def)
      moreover have "settles tid s' = settles tid s"
        using rel_settles [OF r, of tid] False by simp
      ultimately show ?thesis by simp
    qed
  qed
qed

lemma live_ok: "live s \<Longrightarrow> ok s"
  by (simp add: live_def ok_def)

lemma live_relt:
  assumes "live s" and "relt s s'"
  shows "live s'"
proof -
  have r: "rel s s'" using assms(2) by (rule relt_rel)
  have k: "kept s s'" and x: "relx s s'" using assms(2) by (simp_all add: relt_def)
  have o: "ok s'" using live_ok [OF assms(1)] assms(2) by (rule ok_relt)
  have q: "qfun s'" using assms(1) k by (simp add: live_def kept_def)
  have a: "armed_but {} s'"
    using armed_kept [OF _ k] assms(1) r by (simp add: live_def rel_def)
  have c: "accounted s'"
    using accounted_relx [OF _ _ x] assms(1) by (simp add: live_def)
  show ?thesis using o q a c by (simp add: live_def ok_def)
qed

lemma sendSREQ_live:
  assumes "live s" and "is_fun callback"
  shows "live (fst (sendSREQ E argObj valObj callback s))"
proof (cases "zframe argObj")
  case None
  then show ?thesis using live_relt [OF assms(1) invoke_relt] by (simp add: sendSREQ_def)
next
  case (Some p)
  define s' where "s' = fst (sendSREQ E argObj valObj callback s)"
  define evt where "evt = ''SRSP:'' @ zsubsys argObj @ '':'' @ zcmd argObj"
  define n where "n = length (txns s)"
  define l where "l = \<lparr> lid = Suc (Suc (nextId s)), levt = evt, lonce = True, lhandler = HSrsp n \<rparr>"
  define t1 where "t1 = \<lparr> tmid = nextId s, due = now s + 3500, action = TSreqTimeout n \<rparr>"
  define t2 where "t2 = \<lparr> tmid = Suc (nextId s), due = now s + 1800, action = TSreqNextQueue n \<rparr>"
  have w: "wfz s" and c: "cbs_fun s" and q: "qfun s" and t: "timers_ok s" and a: "armed_but {} s"
    and ac: "accounted s"
    using assms(1) by (simp_all add: live_def)
  have f: "listeners s' = listeners s @ [l]" "nextId s' = Suc (Suc (Suc (nextId s)))"
    "calls s' = calls s" "length (txns s') = Suc n"
    "tcallback (txns s' ! n) = callback"
    "handles (txns s' ! n) = {Suc (nextId s), nextId s}"
    "\<And>i. i < n \<Longrightarrow> txns s' ! i = txns s ! i"
    "timers s' = timers s @ [t1, t2]"
    "txQueue s' = txQueue s" "immediates s' = immediates s"
    using Some
    by (simp_all add: s'_def l_def evt_def n_def t1_def t2_def sendSREQ_def Let_def setTimeout_def
        addListener_def unpi_send_def nth_append handles_def)
  have w': "wfz s'"
    using sendSREQ_good [OF w, of E argObj valObj callback] by (simp add: good_def s'_def)
  have old: "tid < n" if "m \<in> set (listeners s)" "lhandler m = HSrsp tid" for m tid
    using w that by (auto simp: wfz_def table_ok_def n_def)
  have st: "settles tid s' = settles tid s" for tid
    using f(3) by (simp add: settles_def)
  have pn: "pending tid s' \<longleftrightarrow> pending tid s \<or> tid = n" for tid
    using f(1) by (auto simp: pending_iff l_def)
  have c': "cbs_fun s'"
    unfolding cbs_fun_def
  proof (intro ballI conjI allI impI)
    fix m tid
    assume m: "m \<in> set (listeners s')" and h: "lhandler m = HSrsp tid"
    from m consider "m \<in> set (listeners s)" | "m = l" using f(1) by auto
    then show "is_fun (tcallback (txns s' ! tid))"
    proof cases
      case 1
      then show ?thesis using c h old [OF 1 h] f(7) by (auto simp: cbs_fun_def)
    next
      case 2
      then show ?thesis using h f(5) assms(2) by (simp add: l_def)
    qed
  next
    fix m cb
    assume m: "m \<in> set (listeners s')" and h: "lhandler m = HReset cb"
    then have "m \<in> set (listeners s)" using f(1) by (auto simp: l_def)
    then show "is_fun cb" using c h by (auto simp: cbs_fun_def)
  qed
  have q': "qfun s'" using q f(9,10) by (simp add: qfun_def)
  have ids: "\<forall>tm \<in> set (timers s). tmid tm < nextId s" and dis: "distinct (map tmid (timers s))"
    and hs: "\<And>tid h. tid < n \<Longrightarrow> h \<in> handles (txns s ! tid) \<Longrightarrow>
          h < nextId s \<and> (\<forall>tm \<in> set (timers s). tmid tm = h \<longrightarrow> owner tm = Some tid)"
    using t unfolding timers_ok_def n_def by blast+
  have t': "timers_ok s'"
    unfolding timers_ok_def
  proof (intro conjI ballI allI impI)
    show "distinct (map tmid (timers s'))"
      using dis ids by (auto simp: f(8) t1_def t2_def)
    show "tmid tm < nextId s'" if "tm \<in> set (timers s')" for tm
      using that ids by (auto simp: f(8) f(2) t1_def t2_def)
    fix tid h
    assume b: "tid < length (txns s') \<and> h \<in> handles (txns s' ! tid)"
    then consider "tid < n" "h \<in> handles (txns s ! tid)" | "tid = n" "h = nextId s \<or> h = Suc (nextId s)"
      using f(4,6,7) by (cases "tid = n") auto
    note cs = this
    show "h < nextId s'" using cs hs by cases (auto simp: f(2) less_Suc_eq)
    fix tm
    assume tm: "tm \<in> set (timers s')" and e: "tmid tm = h"
    show "owner tm = Some tid"
      using cs
    proof cases
      case 1
      then have "h < nextId s" using hs by blast
      then have "tm \<in> set (timers s)" using tm e by (auto simp: f(8) t1_def t2_def)
      then show ?thesis using hs [OF 1] e by blast
    next
      case 2
      then have "tm = t1 \<or> tm = t2" using tm e ids by (auto simp: f(8))
      then show ?thesis using 2 by (auto simp: owner_def t1_def t2_def)
    qed
  qed
  have a': "armed_but {} s'"
    unfolding armed_but_def
  proof (intro allI impI)
    fix tid
    assume "pending tid s' \<and> tid \<notin> {}"
    then consider "pending tid s" | "tid = n" using pn by blast
    then show "\<exists>tm \<in> set (timers s'). action tm = TSreqTimeout tid"
    proof cases
      case 1
      then show ?thesis using a by (auto simp: armed_but_def f(8))
    next
      case 2
      then show ?thesis by (auto simp: f(8) t1_def)
    qed
  qed
  have ac': "accounted s'"
    unfolding accounted_def using ac pn st f(4) by (auto simp: accounted_def n_def less_Suc_eq)
  show ?thesis
    unfolding s'_def [symmetric] live_def using w' c' q' t' a' ac' by simp
qed

lemma sendAREQ_live:
  assumes "live s" and "is_fun callback"
  shows "live (fst (sendAREQ E argObj callback s))"
proof (cases "zframe argObj")
  case None
  then show ?thesis using live_relt [OF assms(1) invoke_relt] by (simp add: sendAREQ_def)
next
  case (Some p)
  show ?thesis
  proof (cases "zcmd argObj = ''resetReq'' \<or> zcmd argObj = ''systemReset''")
    case True
    define s' where "s' = fst (sendAREQ E argObj callback s)"
    define l where "l = \<lparr> lid = nextId s, levt = ''AREQ:SYS:RESET'', lonce = True,
                           lhandler = HReset callback \<rparr>"
    define t3 where "t3 = \<lparr> tmid = Suc (nextId s), due = now s + 30000, action = TResetFailsafe \<rparr>"
    have w: "wfz s" and c: "cbs_fun s" and q: "qfun s" and t: "timers_ok s" and a: "armed_but {} s"
      and ac: "accounted s"
      using assms(1) by (simp_all add: live_def)
    have f: "listeners s' = listeners s @ [l]" "nextId s' = Suc (Suc (nextId s))"
      "calls s' = calls s" "txns s' = txns s" "timers s' = timers s @ [t3]"
      "txQueue s' = []" "immediates s' = immediates s"
      using Some True
      by (simp_all add: s'_def l_def t3_def sendAREQ_def Let_def setTimeout_def addListener_def
          unpi_send_def)
    have w': "wfz s'"
      using sendAREQ_good [OF w, of E argObj callback] by (simp add: good_def s'_def)
    have st: "settles tid s' = settles tid s" for tid
      using f(3) by (simp add: settles_def)
    have pn: "pending tid s' \<longleftrightarrow> pending tid s" for tid
      using f(1) by (auto simp: pending_iff l_def)
    have c': "cbs_fun s'"
      using c assms(2) by (auto simp: cbs_fun_def f(1,4) l_def)
    have q': "qfun s'" using q f(6,7) by (simp add: qfun_def)
    have ids: "\<forall>tm \<in> set (timers s). tmid tm < nextId s" and dis: "distinct (map tmid (timers s))"
      and hs: "\<And>tid h. tid < length (txns s) \<Longrightarrow> h \<in> handles (txns s ! tid) \<Longrightarrow>
            h < nextId s \<and> (\<forall>tm \<in> set (timers s). tmid tm = h \<longrightarrow> owner tm = Some tid)"
      using t unfolding timers_ok_def by blast+
    have t': "timers_ok s'"
      unfolding timers_ok_def
    proof (intro conjI ballI allI impI)
      show "distinct (map tmid (timers s'))"
        using dis ids by (auto simp: f(5) t3_def)
      show "tmid tm < nextId s'" if "tm \<in> set (timers s')" for tm
        using that ids by (auto simp: f(5) f(2) t3_def)
      fix tid h
      assume b: "tid < length (txns s') \<and> h \<in> handles (txns s' ! tid)"
      then have "tid < length (txns s)" "h \<in> handles (txns s ! tid)"
        using f(4) by simp_all
      then have o: "h < nextId s \<and> (\<forall>tm \<in> set (timers s). tmid tm = h \<longrightarrow> owner tm = Some tid)"
        by (rule hs)
      show "h < nextId s'" using o f(2) by simp
      fix tm
      assume tm: "tm \<in> set (timers s')" and e: "tmid tm = h"
      then have "tm \<in> set (timers s)" using o by (auto simp: f(5) t3_def)
      then show "owner tm = Some tid" using o e by blast
    qed
    have a': "armed_but {} s'"
      using a unfolding armed_but_def pn f(5) by auto
    have ac': "accounted s'"
      using ac unfolding accounted_def pn st f(4) by simp
    show ?thesis
      unfolding s'_def [symmetric] live_def using w' c' q' t' a' ac' by simp
  next
    case False
    let ?s0 = "snd (scheduleNextSend E False (s\<lparr> spinLock := False \<rparr>))"
    obtain s1 x where e: "invoke SAreq callback [JNull] ?s0 = (s1, x)"
      by (cases "invoke SAreq callback [JNull] ?s0")
    have r0: "relt s ?s0" by (intro relt_intros)
    have r1: "relt s s1" using relt_trans [OF r0 invoke_relt [of SAreq ?s0 callback "[JNull]"]]
      unfolding e by simp
    have r2: "relt s (unpi_send ''AREQ'' (zsubsys argObj) (zcmdId argObj) p s1)"
      by (intro r1 relt_intros)
    have "relt s (fst (sendAREQ E argObj callback s))"
      using Some False e r1 r2 by (cases x) (simp_all add: sendAREQ_def)
    then show ?thesis using assms(1) live_relt by blast
  qed
qed

lemma live_frame:
  assumes "live s" and "same s x" and "timers x = timers s" and "txns x = txns s" and "qfun x"
  shows "live x"
proof -
  have "kp {} s x" using assms(3-5) by (simp add: kp_def)
  then show ?thesis using assms(1,2) relt_q live_relt by blast
qed

lemma request_live:
  assumes "live s" and "is_fun callback"
  shows "live (fst (request E subsys cmd valObj callback s))"
proof -
  have q: "live (s\<lparr> txQueue := txQueue s @
      [\<lparr> esubsys = subsys, ecmd = cmd, evalObj = valObj, ecallback = callback \<rparr>] \<rparr>)"
  proof (rule live_frame [OF assms(1)])
    show "same s (s\<lparr> txQueue := txQueue s @
        [\<lparr> esubsys = subsys, ecmd = cmd, evalObj = valObj, ecallback = callback \<rparr>] \<rparr>)"
      by (intro same_intros)
    show "qfun (s\<lparr> txQueue := txQueue s @
        [\<lparr> esubsys = subsys, ecmd = cmd, evalObj = valObj, ecallback = callback \<rparr>] \<rparr>)"
      using assms by (simp add: live_def qfun_def)
  qed simp_all
  have l: "live (s\<lparr> spinLock := True \<rparr>)"
    by (rule live_relt [OF assms(1)]) (intro relt_intros)
  have a: "live (fst (sendSREQ E argObj valObj callback (s\<lparr> spinLock := True \<rparr>)))" for argObj
    using sendSREQ_live [OF l assms(2)] .
  have b: "live (fst (sendAREQ E argObj callback (s\<lparr> spinLock := True \<rparr>)))" for argObj
    using sendAREQ_live [OF l assms(2)] .
  show ?thesis
    unfolding request_def
    using assms(1) q l a b by (simp split: sum.split)
qed

lemma entry_fn_live:
  assumes "live s" and "is_fun (ecallback e)"
  shows "live (fst (entry_fn E e s))"
proof -
  obtain s1 x where r: "request E (esubsys e) (ecmd e) (evalObj e) (ecallback e) s = (s1, x)"
    by (cases "request E (esubsys e) (ecmd e) (evalObj e) (ecallback e) s")
  have g: "live s1"
    using request_live [OF assms, of E "esubsys e" "ecmd e" "evalObj e"] unfolding r by simp
  have "live (fst (invoke SRetry (ecallback e) [JErr ex] s1))" for ex
    by (rule live_relt [OF g invoke_relt]) simp
  then show ?thesis unfolding entry_fn_def r using g by (cases x) auto
qed

lemma run_immediate_live:
  assumes "live s"
  shows "live (fst (run_immediate d E s))"
proof (cases "immediates s")
  case Nil
  then show ?thesis using assms by (simp add: run_immediate_def)
next
  case (Cons k ks)
  have q: "qfun s" using assms by (simp add: live_def)
  have l0: "live (s\<lparr> immediates := ks \<rparr>)"
  proof (rule live_frame [OF assms])
    show "same s (s\<lparr> immediates := ks \<rparr>)" by (intro same_intros)
    show "qfun (s\<lparr> immediates := ks \<rparr>)" using q Cons by (simp add: qfun_def)
  qed simp_all
  show ?thesis
  proof (cases k)
    case (KSweep tid)
    have "live (fst (sweep d E vs (s\<lparr> immediates := ks \<rparr>)))" for vs
      using live_relt [OF l0 sweep_relt [OF live_ok [OF l0]]] .
    then show ?thesis using Cons KSweep l0 by (simp add: run_immediate_def)
  next
    case (KTxDeQueue e)
    have "is_fun (ecallback e)" using q Cons KTxDeQueue by (simp add: qfun_def)
    then show ?thesis using Cons KTxDeQueue entry_fn_live [OF l0]
      by (simp add: run_immediate_def)
  qed
qed

lemma earliest_mem: "earliest ts = Some t \<Longrightarrow> t \<in> set ts"
proof (induction ts arbitrary: t)
  case Nil
  then show ?case by simp
next
  case (Cons a ts)
  then show ?case by (auto split: option.splits if_splits)
qed

lemma timers_ok_kp:
  assumes "timers_ok s" and "kp H s s'" and "nextId s' = nextId s" and "length (txns s') = length (txns s)"
  shows "timers_ok s'"
proof -
  have sub: "set (timers s') \<subseteq> set (timers s)" and h: "\<And>i. handles (txns s' ! i) \<subseteq> handles (txns s ! i)"
    and d: "distinct (map tmid (timers s'))"
    using assms(1,2) by (simp_all add: kp_def timers_ok_def)
  have a: "\<forall>tm \<in> set (timers s'). tmid tm < nextId s'"
    using assms(1,3) sub by (auto simp: timers_ok_def)
  have b: "h' < nextId s' \<and> (\<forall>tm \<in> set (timers s'). tmid tm = h' \<longrightarrow> owner tm = Some tid)"
    if "tid < length (txns s')" and "h' \<in> handles (txns s' ! tid)" for tid h'
  proof -
    have "tid < length (txns s)" "h' \<in> handles (txns s ! tid)"
      using that assms(4) h by auto
    then have "h' < nextId s \<and> (\<forall>tm \<in> set (timers s). tmid tm = h' \<longrightarrow> owner tm = Some tid)"
      using assms(1) unfolding timers_ok_def by blast
    then show ?thesis using sub assms(3) by auto
  qed
  show ?thesis unfolding timers_ok_def using d a b by blast
qed

lemma clear_fired:
  assumes "live s" and "t \<in> set (timers s)"
  shows "ok (clearTimeout (tmid t) s)" and "qfun (clearTimeout (tmid t) s)"
    and "accounted (clearTimeout (tmid t) s)"
    and "armed_but (case action t of TSreqTimeout tid \<Rightarrow> {tid} | _ \<Rightarrow> {}) (clearTimeout (tmid t) s)"
proof -
  let ?s0 = "clearTimeout (tmid t) s"
  have w: "wfz s" and c: "cbs_fun s" and q: "qfun s" and tk: "timers_ok s" and a: "armed_but {} s"
    and ac: "accounted s"
    using assms(1) by (simp_all add: live_def)
  have sm: "same s ?s0" by (intro same_intros)
  have r: "rel s ?s0" using sm by (rule same_rel)
  have k: "kp {tmid t} s ?s0" by (intro kp_intros) simp
  have tk0: "timers_ok ?s0"
    using timers_ok_kp [OF tk k] by (simp add: clearTimeout_def)
  show "ok ?s0" using wfz_rel [OF w r] cbs_fun_rel [OF c r] tk0 by (simp add: ok_def)
  show "qfun ?s0" using q k by (simp add: kp_def)
  show "accounted ?s0" using accounted_relx [OF ac w relx_same [OF sm]] .
  have d: "distinct (map tmid (timers s))" using tk by (simp add: timers_ok_def)
  have only: "tm = t" if "tm \<in> set (timers s)" "tmid tm = tmid t" for tm
    using d that assms(2) by (meson distinct_map inj_onD)
  show "armed_but (case action t of TSreqTimeout tid \<Rightarrow> {tid} | _ \<Rightarrow> {}) ?s0"
    unfolding armed_but_def
  proof (intro allI impI)
    fix tid
    assume b: "pending tid ?s0 \<and> tid \<notin> (case action t of TSreqTimeout tid \<Rightarrow> {tid} | _ \<Rightarrow> {})"
    then have "pending tid s" by (simp add: pending_def clearTimeout_def)
    then obtain tm where tm: "tm \<in> set (timers s)" "action tm = TSreqTimeout tid"
      using a unfolding armed_but_def by blast
    have "tm \<noteq> t" using b tm(2) by auto
    then have "tmid tm \<noteq> tmid t" using only tm(1) by blast
    then have "tm \<in> set (timers ?s0)" using tm(1) by (simp add: clearTimeout_def)
    then show "\<exists>tm \<in> set (timers ?s0). action tm = TSreqTimeout tid" using tm(2) by blast
  qed
qed

lemma live_parts: "live s \<longleftrightarrow> ok s \<and> qfun s \<and> armed_but {} s \<and> accounted s"
  by (auto simp: live_def ok_def)

lemma kp_sched_pair:
  assumes "kp H s x"
  shows "kp H s (case scheduleNextSend E b x of (True, s4) \<Rightarrow> s4\<lparr> spinLock := False \<rparr> | (False, s4) \<Rightarrow> s4)"
proof -
  obtain r s4 where p: "scheduleNextSend E b x = (r, s4)" by (cases "scheduleNextSend E b x")
  have "kp H s (snd (scheduleNextSend E b x))" using assms by (intro kp_intros)
  then have "kp H s s4" unfolding p by simp
  then show ?thesis unfolding p by (cases r) (simp_all add: kp_intros)
qed

lemma sreqNextQueue_cb_kp: "kp H s (sreqNextQueue_cb E tid s)"
proof (cases "tid < length (txns s)")
  case False
  then show ?thesis by (simp add: sreqNextQueue_cb_def kp_refl)
next
  case True
  show ?thesis
    unfolding sreqNextQueue_cb_def Let_def
    by (simp only: True if_True, intro kp_sched_pair kp_intros)
qed

lemma fire_timer_live:
  assumes "live s"
  shows "live (fst (fire_timer d E s))"
proof (cases "earliest (filter (\<lambda>t. due t \<le> now s) (timers s))")
  case None
  then show ?thesis using assms by (simp add: fire_timer_def)
next
  case (Some t)
  then have m: "t \<in> set (timers s)" using earliest_mem by fastforce
  let ?s0 = "clearTimeout (tmid t) s"
  note cf = clear_fired [OF assms m]
  show ?thesis
  proof (cases "action t")
    case (TSreqTimeout tid)
    let ?s1 = "fst (sreqTimeout_cb d E tid ?s0)"
    have r: "relt ?s0 ?s1" using sreqTimeout_cb_relt [OF cf(1)] .
    have n: "\<not> pending tid ?s1" using sreqTimeout_cb_done [OF cf(1)] .
    have k: "kept ?s0 ?s1" and x: "relx ?s0 ?s1" using r by (simp_all add: relt_def)
    have sub: "set (listeners ?s1) \<subseteq> set (listeners ?s0)"
      using relt_rel [OF r] by (simp add: rel_def)
    have "armed_but {tid} ?s1"
      using armed_kept [OF _ k sub] cf(4) TSreqTimeout by simp
    then have a: "armed_but {} ?s1" using n by (auto simp: armed_but_def)
    have o: "ok ?s1" using cf(1) r by (rule ok_relt)
    have q: "qfun ?s1" using cf(2) k by (simp add: kept_def)
    have w0: "wfz ?s0" using cf(1) by (simp add: ok_def)
    have c: "accounted ?s1" using accounted_relx [OF cf(3) w0 x] .
    have "live ?s1" using o q a c by (simp add: live_parts)
    then show ?thesis using Some TSreqTimeout by (simp add: fire_timer_def)
  next
    case (TSreqNextQueue tid)
    have l0: "live ?s0" using cf TSreqNextQueue by (simp add: live_parts)
    have "relt ?s0 (sreqNextQueue_cb E tid ?s0)"
      by (rule relt_q [OF sreqNextQueue_cb_same sreqNextQueue_cb_kp])
    then show ?thesis using Some TSreqNextQueue live_relt [OF l0] by (simp add: fire_timer_def)
  next
    case TResetFailsafe
    have l0: "live ?s0" using cf TResetFailsafe by (simp add: live_parts)
    have "relt ?s0 (resetFailsafe_cb ?s0)"
      by (simp add: resetFailsafe_cb_def relt_intros)
    then show ?thesis using Some TResetFailsafe live_relt [OF l0] by (simp add: fire_timer_def)
  qed
qed

lemma note_exn_live:
  assumes "live (fst r)"
  shows "live (note_exn r)"
proof -
  have "live (fst r\<lparr> thrown := v \<rparr>)" for v
    by (rule live_relt [OF assms]) (intro relt_intros)
  then show ?thesis using assms unfolding note_exn_def
    by (cases r; cases "snd r") auto
qed

lemma step_live:
  assumes "live s" and "fun_req ev"
  shows "live (step d E ev s)"
proof (cases ev)
  case (Request subsys cmd valObj callback)
  then have "is_fun callback" using assms(2) by (simp add: fun_req_def)
  then show ?thesis using Request note_exn_live [OF request_live [OF assms(1)]] by (simp add: step_def)
next
  case (Incoming data)
  then show ?thesis
    using note_exn_live [OF live_relt [OF assms(1) parseMtIncomingData_relt [OF live_ok [OF assms(1)]]]]
    by (simp add: step_def)
next
  case (Advance ms)
  have "live (s\<lparr> now := now s + ms \<rparr>)" by (rule live_relt [OF assms(1)]) (intro relt_intros)
  then show ?thesis using Advance by (simp add: step_def)
next
  case FireTimer
  then show ?thesis
    using note_exn_live [OF fire_timer_live [OF assms(1)]] by (simp add: step_def)
next
  case RunImmediate
  then show ?thesis using note_exn_live [OF run_immediate_live [OF assms(1)]] by (simp add: step_def)
next
  case (On evt n)
  define s' where "s' = addListener evt False (HUser n) s"
  have w: "wfz s" and c: "cbs_fun s" and q: "qfun s" and t: "timers_ok s" and a: "armed_but {} s"
    and ac: "accounted s"
    using assms(1) by (simp_all add: live_def)
  have f: "listeners s' = listeners s @ [\<lparr> lid = nextId s, levt = evt, lonce = False, lhandler = HUser n \<rparr>]"
    "nextId s' = Suc (nextId s)" "calls s' = calls s" "txns s' = txns s" "timers s' = timers s"
    "txQueue s' = txQueue s" "immediates s' = immediates s"
    by (simp_all add: s'_def addListener_def)
  have w': "wfz s'"
    using step_good [OF w, of d E ev] On by (simp add: good_def step_def s'_def)
  have st: "settles tid s' = settles tid s" for tid
    using f(3) by (simp add: settles_def)
  have pn: "pending tid s' \<longleftrightarrow> pending tid s" for tid
    using f(1) by (auto simp: pending_iff)
  have c': "cbs_fun s'"
    using c by (auto simp: cbs_fun_def f(1,4))
  have q': "qfun s'" using q f(6,7) by (simp add: qfun_def)
  have t': "timers_ok s'"
    using t unfolding timers_ok_def f(2,4,5) by (auto simp: less_Suc_eq)
  have a': "armed_but {} s'"
    using a unfolding armed_but_def pn f(5) by auto
  have ac': "accounted s'"
    using ac unfolding accounted_def pn st f(4) by simp
  have "live s'" unfolding live_def using w' c' q' t' a' ac' by simp
  then show ?thesis using On by (simp add: step_def s'_def)
next
  case (Close callback)
  then show ?thesis using note_exn_live [OF live_relt [OF assms(1) close_relt]] by (simp add: step_def)
next
  case FlushDone
  then show ?thesis using note_exn_live [OF live_relt [OF assms(1) flush_done_relt]] by (simp add: step_def)
next
  case (CloseDone arg)
  then show ?thesis
    using note_exn_live [OF live_relt [OF assms(1) close_done_relt [OF live_ok [OF assms(1)]]]]
    by (simp add: step_def)
next
  case SpError
  then show ?thesis using note_exn_live [OF live_relt [OF assms(1) spErr_relt]] by (simp add: step_def)
qed

lemma run_live:
  assumes "live s" and "list_all fun_req evs"
  shows "live (run d E evs s)"
  using assms
proof (induction evs arbitrary: s)
  case Nil
  then show ?case by (simp add: run_Nil)
next
  case (Cons ev evs)
  have "live (step d E ev s)" using Cons.prems by (simp add: step_live)
  then show ?case using Cons.IH Cons.prems(2) by (simp add: run_Cons)
qed

lemma live_opened: "live opened"
  using wfz_opened
  by (simp add: live_def cbs_fun_def qfun_def timers_ok_def armed_but_def accounted_def
      pending_def opened_def CcZnp_def)

lemma sreqTimeout_cb_settles:
  assumes "ok s" and "pending tid s"
  shows "settles tid (fst (sreqTimeout_cb d E tid s)) = 1"
    and "\<not> pending tid (fst (sreqTimeout_cb d E tid s))"
    and "snd (sreqTimeout_cb d E tid s) = None"
proof -
  have w: "wfz s" and c: "cbs_fun s" using assms(1) by (simp_all add: ok_def)
  obtain l where l: "l \<in> set (listeners s)" "lhandler l = HSrsp tid"
    using assms(2) by (auto simp: pending_iff)
  have t: "tid < length (txns s)" "levt l = srspEvt (txns s ! tid)"
    using w l by (auto simp: wfz_def table_ok_def)
  have "l \<in> set (listenersOf (srspEvt (txns s ! tid)) s)"
    using l t by (simp add: listenersOf_def)
  then have n: "listenerCount (srspEvt (txns s ! tid)) s \<noteq> 0"
    by (auto simp: listenerCount_def)
  let ?e = "emit d E (srspEvt (txns s ! tid)) (JStr ''__timeout__'') s"
  note g = trigger_settles [OF w c assms(2), of d E "JStr ''__timeout__''"]
  obtain s1 where e: "?e = (s1, None)" using g(3) by (cases ?e) simp
  have s1: "\<not> pending tid s1" "settles tid s1 = 1" using g(1,2) unfolding e by simp_all
  have r: "sreqTimeout_cb d E tid s = (upd_txn tid (\<lambda>t. t\<lparr> sreqTimeout := None \<rparr>) s1, None)"
    using t n e by (simp add: sreqTimeout_cb_def)
  show "settles tid (fst (sreqTimeout_cb d E tid s)) = 1"
    unfolding r using s1 by (simp add: settles_def upd_txn_def)
  show "\<not> pending tid (fst (sreqTimeout_cb d E tid s))"
    unfolding r using s1 by (simp add: pending_def upd_txn_def)
  show "snd (sreqTimeout_cb d E tid s) = None"
    unfolding r by simp
qed

lemma fire_timeout_settles:
  assumes "live s" and "pending tid s"
    and "earliest (filter (\<lambda>t. due t \<le> now s) (timers s)) = Some tm"
    and "action tm = TSreqTimeout tid"
  shows "settles tid (step d E FireTimer s) = 1" and "\<not> pending tid (step d E FireTimer s)"
proof -
  have m: "tm \<in> set (timers s)" using assms(3) earliest_mem by fastforce
  let ?s0 = "clearTimeout (tmid tm) s"
  have o: "ok ?s0" using clear_fired(1) [OF assms(1) m] .
  have p: "pending tid ?s0" using assms(2) by (simp add: pending_def clearTimeout_def)
  note g = sreqTimeout_cb_settles [OF o p, of d E]
  have "step d E FireTimer s = fst (sreqTimeout_cb d E tid ?s0)"
    using assms(3,4) g(3)
    by (cases "sreqTimeout_cb d E tid ?s0") (simp add: step_def fire_timer_def note_exn_def)
  then show "settles tid (step d E FireTimer s) = 1" and "\<not> pending tid (step d E FireTimer s)"
    using g(1,2) by simp_all
qed

text \<open>
  C1 (single settlement). \<open>s\<close> is any state that the client can reach from an engine that
  has just been opened, by any sequence of requests, inbound frames, timers, immediates,
  subscriptions, closes and port events; transaction \<open>tid\<close> is the \<open>tid\<close>-th synchronous
  request that reached the wire, \<open>settles tid\<close> counts the calls of its result callback by
  its reply listener, and the transaction is pending while that listener is attached.

  Whatever the callbacks are: the callback has been called at most once, and not at all
  while the transaction is pending; whatever happens next, the count does not go down and
  does not exceed one, so that every trigger after the first leaves it at one.

  When every request of the trace carries a function as its callback: a transaction that
  was sent is either pending, with its 3500 ms timer armed, or its callback has been called
  exactly once; the triggers that end a transaction (the reply, the timeout, a device
  error) all emit the transaction's own event, and when one does so for a pending
  transaction the listener goes, the callback is called exactly once and nothing is
  thrown; in particular the 3500 ms timer of a pending transaction, when it fires, settles
  it.
\<close>

theorem single_settlement:
  "settles tid (run d E evs opened) \<le> settles tid (run d E (evs @ evs') opened) \<and>
   settles tid (run d E (evs @ evs') opened) \<le> 1 \<and>
   (pending tid (run d E evs opened) \<longrightarrow> settles tid (run d E evs opened) = 0) \<and>
   (list_all fun_req evs \<longrightarrow>
      (tid < length (txns (run d E evs opened)) \<longrightarrow>
         (if pending tid (run d E evs opened)
          then \<exists>tm \<in> set (timers (run d E evs opened)). action tm = TSreqTimeout tid
          else settles tid (run d E evs opened) = 1)) \<and>
      (pending tid (run d E evs opened) \<longrightarrow>
         settles tid (fst (emit d E (srspEvt (txns (run d E evs opened) ! tid)) r
           (run d E evs opened))) = 1 \<and>
         \<not> pending tid (fst (emit d E (srspEvt (txns (run d E evs opened) ! tid)) r
           (run d E evs opened))) \<and>
         snd (emit d E (srspEvt (txns (run d E evs opened) ! tid)) r (run d E evs opened)) = None) \<and>
      (pending tid (run d E evs opened) \<and>
       earliest (filter (\<lambda>t. due t \<le> now (run d E evs opened)) (timers (run d E evs opened))) = Some tm \<and>
       action tm = TSreqTimeout tid \<longrightarrow>
         settles tid (step d E FireTimer (run d E evs opened)) = 1 \<and>
         \<not> pending tid (step d E FireTimer (run d E evs opened))))"
proof -
  let ?s = "run d E evs opened"
  let ?s' = "run d E (evs @ evs') opened"
  have w: "wfz ?s"
    using run_good [OF wfz_opened, of d E evs] by (simp add: good_def)
  have "good ?s (run d E evs' ?s)"
    by (rule run_good [OF w])
  then have a: "settles tid ?s \<le> settles tid ?s'"
    by (simp add: good_def run_append)
  have "wfz ?s'"
    using run_good [OF wfz_opened, of d E "evs @ evs'"] by (simp add: good_def)
  then have b: "settles tid ?s' \<le> 1"
    by (simp add: wfz_def counts_ok_def)
  have c: "pending tid ?s \<longrightarrow> settles tid ?s = 0"
    using wfz_pending [OF w] by blast
  have e: "(tid < length (txns ?s) \<longrightarrow>
         (if pending tid ?s then \<exists>tm \<in> set (timers ?s). action tm = TSreqTimeout tid
          else settles tid ?s = 1)) \<and>
      (pending tid ?s \<longrightarrow>
         settles tid (fst (emit d E (srspEvt (txns ?s ! tid)) r ?s)) = 1 \<and>
         \<not> pending tid (fst (emit d E (srspEvt (txns ?s ! tid)) r ?s)) \<and>
         snd (emit d E (srspEvt (txns ?s ! tid)) r ?s) = None) \<and>
      (pending tid ?s \<and> earliest (filter (\<lambda>t. due t \<le> now ?s) (timers ?s)) = Some tm \<and>
       action tm = TSreqTimeout tid \<longrightarrow>
         settles tid (step d E FireTimer ?s) = 1 \<and> \<not> pending tid (step d E FireTimer ?s))"
    if f: "list_all fun_req evs"
  proof -
    have l: "live ?s" using run_live [OF live_opened f] .
    have c: "cbs_fun ?s" and ar: "armed_but {} ?s" and ac: "accounted ?s"
      using l by (simp_all add: live_def)
    have 1: "tid < length (txns ?s) \<longrightarrow>
         (if pending tid ?s then \<exists>tm \<in> set (timers ?s). action tm = TSreqTimeout tid
          else settles tid ?s = 1)"
      using ar ac by (auto simp: armed_but_def accounted_def)
    have 2: "pending tid ?s \<longrightarrow>
         settles tid (fst (emit d E (srspEvt (txns ?s ! tid)) r ?s)) = 1 \<and>
         \<not> pending tid (fst (emit d E (srspEvt (txns ?s ! tid)) r ?s)) \<and>
         snd (emit d E (srspEvt (txns ?s ! tid)) r ?s) = None"
      using trigger_settles [OF w c, of tid d E r] by blast
    have 3: "pending tid ?s \<and> earliest (filter (\<lambda>t. due t \<le> now ?s) (timers ?s)) = Some tm \<and>
       action tm = TSreqTimeout tid \<longrightarrow>
         settles tid (step d E FireTimer ?s) = 1 \<and> \<not> pending tid (step d E FireTimer ?s)"
      using fire_timeout_settles [OF l, of tid tm d E] by blast
    show ?thesis using 1 2 3 by blast
  qed
  show ?thesis using a b c e by blast
qed

text \<open>
  \<^verbatim>\<open>SYS:ping\<close> is sent and gets no reply for 3500 ms. Its promotion timer has run; its
  3500 ms timer is the one that is due. When that timer fires the callback is called once,
  with the timeout error, and the reply that arrives afterwards does not call it again.
\<close>

lemma run_ping_timeout:
  "run 1 demoEnv [reqA, Advance 3500, FireTimer] opened =
     opened\<lparr> spinLock := True,
       backlog := [\<lparr> bid = 0, bevt = ''SRSP:SYS:ping'', bsubsys = ''SYS'', bcmd = ''ping'' \<rparr>],
       listeners := [\<lparr> lid = 0, levt = ''SRSP:RES0:error'', lonce = False, lhandler = HResError \<rparr>,
                     \<lparr> lid = 3, levt = ''SRSP:SYS:ping'', lonce = True, lhandler = HSrsp 0 \<rparr>],
       timers := [\<lparr> tmid = 1, due = 3500, action = TSreqTimeout 0 \<rparr>],
       txns := [txnA], now := 3500, nextId := 4, wire := [(''SREQ'', ''SYS'', 1, [])] \<rparr>"
  by (simp add: ev_defs engine_defs demo_defs txnA_def Let_def)

theorem single_settlement_witness:
  "list_all fun_req [reqA, Advance 3500, FireTimer] \<and>
   pending 0 (run 1 demoEnv [reqA, Advance 3500, FireTimer] opened) \<and>
   settles 0 (run 1 demoEnv [reqA, Advance 3500, FireTimer] opened) = 0 \<and>
   earliest (filter (\<lambda>t. due t \<le> now (run 1 demoEnv [reqA, Advance 3500, FireTimer] opened))
     (timers (run 1 demoEnv [reqA, Advance 3500, FireTimer] opened)))
     = Some \<lparr> tmid = 1, due = 3500, action = TSreqTimeout 0 \<rparr> \<and>
   settles 0 (step 1 demoEnv FireTimer (run 1 demoEnv [reqA, Advance 3500, FireTimer] opened)) = 1 \<and>
   \<not> pending 0 (step 1 demoEnv FireTimer (run 1 demoEnv [reqA, Advance 3500, FireTimer] opened)) \<and>
   settles 0 (run 1 demoEnv ([reqA, Advance 3500, FireTimer, FireTimer] @ [okA]) opened) = 1 \<and>
   calls (run 1 demoEnv ([reqA, Advance 3500, FireTimer, FireTimer] @ [okA]) opened)
     = [(SListener 0, JFunction 1, [JErr (Error ''request timeout'')])]"
proof -
  let ?evs = "[reqA, Advance 3500, FireTimer]"
  let ?s = "run 1 demoEnv ?evs opened"
  let ?tm = "\<lparr> tmid = 1, due = 3500, action = TSreqTimeout 0 \<rparr>"
  have f: "list_all fun_req ?evs" "list_all fun_req (?evs @ [FireTimer])"
    by (simp_all add: fun_req_def ev_defs is_fun_def)
  have p: "pending 0 ?s" and z: "settles 0 ?s = 0"
    and e: "earliest (filter (\<lambda>t. due t \<le> now ?s) (timers ?s)) = Some ?tm"
    unfolding run_ping_timeout by (simp_all add: pending_def settles_def opened_def CcZnp_def)
  have a: "action ?tm = TSreqTimeout 0" by simp
  have s1: "settles 0 (step 1 demoEnv FireTimer ?s) = 1 \<and> \<not> pending 0 (step 1 demoEnv FireTimer ?s)"
    using single_settlement [of 0 1 demoEnv ?evs "[]" _ ?tm] f(1) p e a by blast
  have r: "run 1 demoEnv (?evs @ [FireTimer]) opened = step 1 demoEnv FireTimer ?s"
    by (simp add: run_append run_Cons run_Nil)
  have "settles 0 (run 1 demoEnv (?evs @ [FireTimer]) opened)
          \<le> settles 0 (run 1 demoEnv ((?evs @ [FireTimer]) @ [okA]) opened)
      \<and> settles 0 (run 1 demoEnv ((?evs @ [FireTimer]) @ [okA]) opened) \<le> 1"
    using single_settlement [of 0 1 demoEnv "?evs @ [FireTimer]" "[okA]"] by blast
  then have s2: "settles 0 (run 1 demoEnv ((?evs @ [FireTimer]) @ [okA]) opened) = 1"
    using s1 unfolding r by simp
  have c: "calls (run 1 demoEnv ([reqA, Advance 3500, FireTimer, FireTimer] @ [okA]) opened)
     = [(SListener 0, JFunction 1, [JErr (Error ''request timeout'')])]"
    by (simp add: ev_defs engine_defs demo_defs Let_def)
  show ?thesis using f(1) p z e s1 s2 c by simp
qed

end
